theory Spec2Isabelle
  imports Main "HOL-Library.Sublist" "HOL-Library.Char_ord" "HOL-Library.List_Lexorder"
    "HOL-Library.Product_Lexorder" "HOL-Library.Multiset"
begin

section \<open>Strings\<close>

text \<open>
  A \<^verbatim>\<open>QString\<close> is modelled as a \<^typ>\<open>string\<close>; where the source tests
  \<^verbatim>\<open>isNull()\<close> (the parent hint, the parent name) it is a \<^typ>\<open>string option\<close>
  with \<^term>\<open>None\<close> for the null string.
\<close>

text \<open>\<^verbatim>\<open>QString::indexOf(sep)\<close>: the first position where \<open>sep\<close> occurs, \<open>-1\<close>
  (here \<^term>\<open>None\<close>) when it does not occur.\<close>

fun indexOf :: "string \<Rightarrow> string \<Rightarrow> nat option" where
  "indexOf [] sep = (if sep = [] then Some 0 else None)"
| "indexOf (c # cs) sep =
     (if prefix sep (c # cs) then Some 0 else map_option Suc (indexOf cs sep))"

lemma indexOf_Some_bound:
  "indexOf s sep = Some i \<Longrightarrow> i + length sep \<le> length s"
proof (induction s arbitrary: i)
  case Nil
  then show ?case by (simp split: if_splits)
next
  case (Cons c cs)
  show ?case
  proof (cases "prefix sep (c # cs)")
    case True
    with Cons.prems prefix_length_le [of sep "c # cs"] show ?thesis by simp
  next
    case False
    with Cons.prems obtain j where "indexOf cs sep = Some j" "i = Suc j" by auto
    with Cons.IH show ?thesis by simp
  qed
qed

text \<open>\<^verbatim>\<open>QString::split(sep)\<close> with the default \<^verbatim>\<open>KeepEmptyParts\<close>: the separator is
  searched from left to right, each search starting behind the previous occurrence, and
  the text between the occurrences is collected. The source only splits at its three
  non-empty separators; for an empty one the model returns the string whole.\<close>

function qsplit :: "string \<Rightarrow> string \<Rightarrow> string list" where
  "qsplit sep s =
     (if sep = [] then [s]
      else case indexOf s sep of
             None \<Rightarrow> [s]
           | Some i \<Rightarrow> take i s # qsplit sep (drop (i + length sep) s))"
  by pat_completeness auto
termination
proof (relation "measure (\<lambda>(sep, s). length s)")
  show "wf (measure (\<lambda>(sep, s). length s))" by simp
next
  fix sep s :: string and i :: nat
  assume "sep \<noteq> []" and "indexOf s sep = Some i"
  then have "i + length sep \<le> length s" and "1 \<le> length sep"
    by (simp_all add: indexOf_Some_bound Suc_le_eq)
  then have "length (drop (i + length sep) s) < length s"
    unfolding length_drop by linarith
  then show "((sep, drop (i + length sep) s), (sep, s)) \<in> measure (\<lambda>(sep, s). length s)"
    by simp
qed

declare qsplit.simps [simp del]

section \<open>The method-name pattern\<close>

text \<open>
  \<^verbatim>\<open>QRegExp matchMethodName("^([^\\(]+)(?:\\(.*\\))?$")\<close> is kept as a regular
  expression and run by a matcher on derivatives.
\<close>

datatype rx = Zero | Eps | Chr char | NotChr char | AnyChr | Seq rx rx | Alt rx rx | Star rx

fun nullable :: "rx \<Rightarrow> bool" where
  "nullable Zero = False"
| "nullable Eps = True"
| "nullable (Chr c) = False"
| "nullable (NotChr c) = False"
| "nullable AnyChr = False"
| "nullable (Seq r s) = (nullable r \<and> nullable s)"
| "nullable (Alt r s) = (nullable r \<or> nullable s)"
| "nullable (Star r) = True"

fun deriv :: "char \<Rightarrow> rx \<Rightarrow> rx" where
  "deriv a Zero = Zero"
| "deriv a Eps = Zero"
| "deriv a (Chr c) = (if a = c then Eps else Zero)"
| "deriv a (NotChr c) = (if a = c then Zero else Eps)"
| "deriv a AnyChr = Eps"
| "deriv a (Seq r s) =
     (if nullable r then Alt (Seq (deriv a r) s) (deriv a s) else Seq (deriv a r) s)"
| "deriv a (Alt r s) = Alt (deriv a r) (deriv a s)"
| "deriv a (Star r) = Seq (deriv a r) (Star r)"

fun rx_matches :: "rx \<Rightarrow> string \<Rightarrow> bool" where
  "rx_matches r [] = nullable r"
| "rx_matches r (a # as) = rx_matches (deriv a r) as"

text \<open>The capturing group \<^verbatim>\<open>([^\\(]+)\<close> and the optional group \<^verbatim>\<open>(?:\\(.*\\))?\<close>.\<close>

definition identGroup :: rx where
  "identGroup = Seq (NotChr (CHR ''('')) (Star (NotChr (CHR ''('')))"

definition paramsGroup :: rx where
  "paramsGroup = Alt Eps (Seq (Chr (CHR ''('')) (Seq (Star AnyChr) (Chr (CHR '')''))))"

text \<open>
  \<^verbatim>\<open>matchMethodName.indexIn(itemName)\<close> followed by \<^verbatim>\<open>cap(1)\<close>: the pattern is anchored
  at both ends, so a match is a cut of the whole name into the text of the first group and
  the text of the optional group; the quantifier is greedy, so the longest first group is
  tried first. \<^term>\<open>None\<close> is the result \<open>-1\<close> of \<^verbatim>\<open>indexIn\<close>.
\<close>

definition matchMethodName :: "string \<Rightarrow> string option" where
  "matchMethodName itemName =
     map_option (\<lambda>k. take k itemName)
       (find (\<lambda>k. rx_matches identGroup (take k itemName) \<and>
                   rx_matches paramsGroup (drop k itemName))
             (rev [0..<Suc (length itemName)]))"

section \<open>Name normalisation\<close>

definition separators :: "string list" where
  "separators = [''.'', ''::'', ''/'']"

text \<open>The body of the loop over the separators in \<^verbatim>\<open>normalizeName\<close>.\<close>

definition normalizeStep ::
  "string option \<Rightarrow> string \<times> string option \<Rightarrow> string \<Rightarrow> string \<times> string option" where
  "normalizeStep initialParent st sep =
     (case st of (itemName, parentName) \<Rightarrow>
        if indexOf itemName sep \<noteq> None \<and> indexOf itemName sep \<noteq> Some 0 \<and> initialParent = None
        then let splitted = qsplit sep itemName
             in (splitted ! (length splitted - 1), Some (splitted ! (length splitted - 2)))
        else (itemName, parentName))"

text \<open>\<^verbatim>\<open>DocsetRegistry::normalizeName(itemName, parentName, initialParent)\<close>: the two
  reference parameters are returned as a pair.\<close>

definition stripParams :: "string \<Rightarrow> string" where
  "stripParams itemName =
     (case matchMethodName itemName of Some cap1 \<Rightarrow> cap1 | None \<Rightarrow> itemName)"

definition normalizeName ::
  "string \<Rightarrow> string option \<Rightarrow> string option \<Rightarrow> string \<times> string option" where
  "normalizeName itemName parentName initialParent =
     foldl (normalizeStep initialParent) (stripParams itemName, parentName) separators"

text \<open>A name has a trailing parenthesised group when it ends with a closing parenthesis
  and an opening one stands before it.\<close>

definition hasTrailingParenGroup :: "string \<Rightarrow> bool" where
  "hasTrailingParenGroup s \<longleftrightarrow> s \<noteq> [] \<and> last s = CHR '')'' \<and> CHR ''('' \<in> set s"

text \<open>\<open>splitsInto sep d segs\<close>: the segments, each but the last followed by the
  separator, make up the name \<open>d\<close>; the separator occurs in none of them, and where a
  segment is followed by the separator, that is the first place the separator occurs from
  the start of the segment on. So the occurrences that divide the name are found from
  left to right, each search starting behind the occurrence before it, and an occurrence
  that overlaps an earlier one divides nothing: \<open>pkg:::fn\<close> splits at \<open>::\<close> into \<open>pkg\<close>
  and \<open>:fn\<close>.\<close>

definition splitsInto :: "string \<Rightarrow> string \<Rightarrow> string list \<Rightarrow> bool" where
  "splitsInto sep d segs \<longleftrightarrow>
     segs \<noteq> [] \<and>
     d = concat (map (\<lambda>s. s @ sep) (butlast segs)) @ last segs \<and>
     (\<forall>s \<in> set (butlast segs). indexOf (s @ sep) sep = Some (length s)) \<and>
     indexOf (last segs) sep = None"

text \<open>
  The decomposition as the specification words it, for comparison with \<open>normalizeName\<close>:
  only the first separator in priority order that occurs in the stripped name, and not at
  position 0, splits the name, at its last occurrence.
\<close>

fun lastIndexOf :: "string \<Rightarrow> string \<Rightarrow> nat option" where
  "lastIndexOf [] sep = (if sep = [] then Some 0 else None)"
| "lastIndexOf (c # cs) sep =
     (case lastIndexOf cs sep of
        Some j \<Rightarrow> Some (Suc j)
      | None \<Rightarrow> if prefix sep (c # cs) then Some 0 else None)"

definition afterLast :: "string \<Rightarrow> string \<Rightarrow> string" where
  "afterLast sep s = (case lastIndexOf s sep of None \<Rightarrow> s | Some j \<Rightarrow> drop (j + length sep) s)"

definition beforeLast :: "string \<Rightarrow> string \<Rightarrow> string" where
  "beforeLast sep s = (case lastIndexOf s sep of None \<Rightarrow> [] | Some j \<Rightarrow> take j s)"

definition claimed_normalize :: "string \<Rightarrow> string \<times> string option" where
  "claimed_normalize n =
     (let stripped = stripParams n
      in case find (\<lambda>sep. indexOf stripped sep \<noteq> None \<and> indexOf stripped sep \<noteq> Some 0) separators of
           None \<Rightarrow> (stripped, None)
         | Some sep \<Rightarrow> (afterLast sep stripped, Some (afterLast sep (beforeLast sep stripped))))"

text \<open>
  The stripping as the specification words it, for comparison with \<open>stripParams\<close>: at
  most one trailing parenthesised group is removed, the one that the closing parenthesis
  at the end of the name closes, when an identifier stands before it. \<open>groupStart\<close>
  reads the name backwards from that parenthesis and counts the characters up to the
  opening parenthesis that matches it.
\<close>

fun groupStart :: "nat \<Rightarrow> string \<Rightarrow> nat option" where
  "groupStart d [] = None"
| "groupStart d (c # cs) =
     (if c = CHR '')'' then map_option Suc (groupStart (Suc d) cs)
      else if c = CHR ''('' then (if d = 0 then Some 1 else map_option Suc (groupStart (d - 1) cs))
      else map_option Suc (groupStart d cs))"

definition trailingGroup :: "string \<Rightarrow> nat option" where
  "trailingGroup s =
     (case rev s of
        [] \<Rightarrow> None
      | c # cs \<Rightarrow> if c = CHR '')'' then map_option Suc (groupStart 0 cs) else None)"

definition claimed_strip :: "string \<Rightarrow> string" where
  "claimed_strip s =
     (case trailingGroup s of
        None \<Rightarrow> s
      | Some k \<Rightarrow> if k < length s then take (length s - k) s else s)"


section \<open>The symbol stores\<close>

text \<open>
  A docset's database is not part of the registry's code: it is the SQLite file the
  \<^verbatim>\<open>QSqlDatabase\<close> of the docset is connected to. It is modelled by its tables and by
  what a statement returns on them. The statements of the search are sent as text, put
  together from the sanitised term; section \<open>Statement texts\<close> has that text and how the
  database reads it.
\<close>

datatype docsetType = Dash | ZDash

record searchIndexRow =
  si_name :: string
  si_type :: string
  si_path :: string

record ztokenRow =
  ztokenname :: string
  zmetainformation :: nat
  ztokentype :: nat

record ztokenmetainformationRow =
  meta_z_pk :: nat
  zfile :: nat
  zanchor :: string

record zfilepathRow =
  file_z_pk :: nat
  zpath :: string

record ztokentypeRow =
  type_z_pk :: nat
  ztypename :: string

datatype store =
    DashStore "searchIndexRow list"
  | ZDashStore "ztokenRow list" "ztokenmetainformationRow list" "zfilepathRow list"
      "ztokentypeRow list"

text \<open>\<^verbatim>\<open>QVariant\<close>, as far as the registry reads it: a null value or a text.\<close>

datatype variant = Null | Text string

fun isNull :: "variant \<Rightarrow> bool" where
  "isNull Null = True"
| "isNull (Text s) = False"

text \<open>\<^verbatim>\<open>QVariant::toString()\<close>: a null variant gives the null string. \<open>toString\<close> is used
  where the source only reads the characters, \<open>toQString\<close> where it tests \<^verbatim>\<open>isNull()\<close>.\<close>

fun toString :: "variant \<Rightarrow> string" where
  "toString Null = []"
| "toString (Text s) = s"

fun toQString :: "variant \<Rightarrow> string option" where
  "toQString Null = None"
| "toQString (Text s) = Some s"

text \<open>ASCII lower case, which is what SQLite's \<^verbatim>\<open>lower()\<close> and \<^verbatim>\<open>LIKE\<close> fold.\<close>

definition lowerChar :: "char \<Rightarrow> char" where
  "lowerChar c = (if CHR ''A'' \<le> c \<and> c \<le> CHR ''Z'' then char_of (of_char c + (32::nat)) else c)"

definition toLower :: "string \<Rightarrow> string" where
  "toLower s = map lowerChar s"

text \<open>
  SQLite's \<^verbatim>\<open>text LIKE pattern ESCAPE esc\<close> (\<open>esc = None\<close>: no \<^verbatim>\<open>ESCAPE\<close> clause):
  \<^verbatim>\<open>%\<close> stands for any run of characters, \<^verbatim>\<open>_\<close> for one character, the character
  behind the escape character for itself, and letters are compared without case.
\<close>

fun sqlLike :: "char option \<Rightarrow> string \<Rightarrow> string \<Rightarrow> bool" where
  "sqlLike esc [] t = (t = [])"
| "sqlLike esc (c # p) t =
     (if c = CHR ''%'' then
        (sqlLike esc p t \<or> (case t of [] \<Rightarrow> False | a # t' \<Rightarrow> sqlLike esc (c # p) t'))
      else if c = CHR ''_'' then
        (case t of [] \<Rightarrow> False | a # t' \<Rightarrow> sqlLike esc p t')
      else if Some c = esc then
        (case p of
           [] \<Rightarrow> False
         | e # p' \<Rightarrow> (case t of [] \<Rightarrow> False | a # t' \<Rightarrow> lowerChar a = lowerChar e \<and> sqlLike esc p' t'))
      else
        (case t of [] \<Rightarrow> False | a # t' \<Rightarrow> lowerChar a = lowerChar c \<and> sqlLike esc p t'))"

text \<open>The conditions of the \<^verbatim>\<open>where\<close> clauses: \<open>Like col pat\<close> is
  \<^verbatim>\<open>col like 'pat' escape '\'\<close>.\<close>

datatype cond = Like string string | Or cond cond | And cond cond | Not cond

fun condColumns :: "cond \<Rightarrow> string set" where
  "condColumns (Like col pat) = {col}"
| "condColumns (Or a b) = condColumns a \<union> condColumns b"
| "condColumns (And a b) = condColumns a \<union> condColumns b"
| "condColumns (Not a) = condColumns a"

text \<open>The value of a condition on a row whose name column holds \<open>v\<close>.\<close>

fun evalCond :: "string \<Rightarrow> cond \<Rightarrow> bool" where
  "evalCond v (Like col pat) = sqlLike (Some (CHR 0x5C)) pat v"
| "evalCond v (Or a b) = (evalCond v a \<or> evalCond v b)"
| "evalCond v (And a b) = (evalCond v a \<and> evalCond v b)"
| "evalCond v (Not a) = (\<not> evalCond v a)"

text \<open>
  The four statements of the registry:
  \<^item> \<open>SelectSearchIndex c\<close>: \<^verbatim>\<open>select t.name, null, t.path from searchIndex t where c
    order by length(t.name), lower(t.name) asc, t.path asc limit 100\<close>;
  \<^item> \<open>SelectZToken c\<close>: \<^verbatim>\<open>select ztokenname, null, zpath, zanchor from ztoken join
    ztokenmetainformation on ztoken.zmetainformation = ztokenmetainformation.z_pk join
    zfilepath on ztokenmetainformation.zfile = zfilepath.z_pk where c order by
    length(ztokenname), lower(ztokenname) asc, zpath asc, zanchor asc limit 100\<close>;
  \<^item> \<open>RelatedSearchIndex u\<close>: \<^verbatim>\<open>SELECT name, type, path FROM searchIndex WHERE path LIKE "u%%"\<close>;
  \<^item> \<open>RelatedZToken u\<close>: the join of the four tables \<^verbatim>\<open>WHERE zfilepath.zpath = "u"\<close>.
\<close>

datatype sqlQuery =
    SelectSearchIndex cond
  | SelectZToken cond
  | RelatedSearchIndex string
  | RelatedZToken string

text \<open>The join of \<^verbatim>\<open>ztoken\<close>, \<^verbatim>\<open>ztokenmetainformation\<close> and \<^verbatim>\<open>zfilepath\<close>: name,
  path and anchor of every token.\<close>

definition ztokenJoin ::
  "ztokenRow list \<Rightarrow> ztokenmetainformationRow list \<Rightarrow> zfilepathRow list \<Rightarrow>
   (string \<times> string \<times> string) list" where
  "ztokenJoin toks metas files =
     concat (map (\<lambda>t. concat (map (\<lambda>m. map (\<lambda>f. (ztokenname t, zpath f, zanchor m))
         (filter (\<lambda>f. zfile m = file_z_pk f) files))
       (filter (\<lambda>m. zmetainformation t = meta_z_pk m) metas))) toks)"

text \<open>The same join with \<^verbatim>\<open>ztokentype\<close>: name, type name, path and anchor.\<close>

definition ztokenTypeJoin ::
  "ztokenRow list \<Rightarrow> ztokenmetainformationRow list \<Rightarrow> zfilepathRow list \<Rightarrow> ztokentypeRow list \<Rightarrow>
   (string \<times> string \<times> string \<times> string) list" where
  "ztokenTypeJoin toks metas files types =
     concat (map (\<lambda>t. concat (map (\<lambda>m. concat (map (\<lambda>f. map (\<lambda>y. (ztokenname t, ztypename y, zpath f, zanchor m))
           (filter (\<lambda>y. ztokentype t = type_z_pk y) types))
         (filter (\<lambda>f. zfile m = file_z_pk f) files)))
       (filter (\<lambda>m. zmetainformation t = meta_z_pk m) metas))) toks)"

text \<open>
  What a statement returns on a store, one list of column values per row. A statement on
  a table the store does not have, or a condition on a column the table does not have,
  fails in SQLite, and the failed \<^verbatim>\<open>QSqlQuery\<close> has no rows. Rows of equal rank keep the
  order of the table.
\<close>

fun exec :: "store \<Rightarrow> sqlQuery \<Rightarrow> variant list list" where
  "exec (DashStore rows) (SelectSearchIndex c) =
     (if condColumns c \<subseteq> {''t.name''} then
        map (\<lambda>r. [Text (si_name r), Null, Text (si_path r)])
          (take 100 (sort_key (\<lambda>r. (length (si_name r), toLower (si_name r), si_path r))
             (filter (\<lambda>r. evalCond (si_name r) c) rows)))
      else [])"
| "exec (ZDashStore toks metas files types) (SelectZToken c) =
     (if condColumns c \<subseteq> {''ztokenname''} then
        map (\<lambda>(n, p, a). [Text n, Null, Text p, Text a])
          (take 100 (sort_key (\<lambda>(n, p, a). (length n, toLower n, p, a))
             (filter (\<lambda>(n, p, a). evalCond n c) (ztokenJoin toks metas files))))
      else [])"
| "exec (DashStore rows) (RelatedSearchIndex pageUrl) =
     map (\<lambda>r. [Text (si_name r), Text (si_type r), Text (si_path r)])
       (filter (\<lambda>r. sqlLike None (pageUrl @ ''%%'') (si_path r)) rows)"
| "exec (ZDashStore toks metas files types) (RelatedZToken pageUrl) =
     map (\<lambda>(n, y, p, a). [Text n, Text y, Text p, Text a])
       (filter (\<lambda>(n, y, p, a). p = pageUrl) (ztokenTypeJoin toks metas files types))"
| "exec s q = []"

section \<open>Statement texts\<close>

text \<open>
  \<^verbatim>\<open>QString::arg\<close> with several arguments: all place markers of the format are replaced
  in one pass, and the text of an argument is not searched for markers. A place marker is
  \<^verbatim>\<open>%\<close> followed by digits. Qt gives the marker with the lowest number the first
  argument, the next one the second, and so on; the formats of the registry number their
  markers from 1 without a gap, so \<^verbatim>\<open>%n\<close> stands for the \<open>n\<close>-th argument. A marker
  without an argument stays as it is. (The formats have no marker of the form \<^verbatim>\<open>%Ln\<close>.)
\<close>

definition isDigit :: "char \<Rightarrow> bool" where
  "isDigit c \<longleftrightarrow> c \<in> set ''0123456789''"

definition digitValue :: "char \<Rightarrow> nat" where
  "digitValue c = length (takeWhile (\<lambda>d. d \<noteq> c) ''0123456789'')"

definition markerNumber :: "string \<Rightarrow> nat" where
  "markerNumber ds = foldl (\<lambda>n c. 10 * n + digitValue c) 0 ds"

definition place :: "string \<Rightarrow> nat \<Rightarrow> string list \<Rightarrow> string" where
  "place marker n as = (if 1 \<le> n \<and> n \<le> length as then as ! (n - 1) else marker)"

function arg :: "string \<Rightarrow> string list \<Rightarrow> string" where
  "arg [] as = []"
| "arg (c # cs) as =
     (if c = CHR ''%'' \<and> takeWhile isDigit cs \<noteq> []
      then place (c # takeWhile isDigit cs) (markerNumber (takeWhile isDigit cs)) as
           @ arg (dropWhile isDigit cs) as
      else c # arg cs as)"
  by pat_completeness auto
termination
  by (relation "measure (\<lambda>(f, as). length f)") (auto simp: length_dropWhile_le less_Suc_eq_le)

text \<open>The text \<^verbatim>\<open>'\'\<close> of the statements, written \<^verbatim>\<open>'\\'\<close> in the source: a quoted
  backslash.\<close>

definition backslashLiteral :: string where
  "backslashLiteral = [CHR 0x27, CHR 0x5C, CHR 0x27]"

text \<open>
  A quoted literal of SQL ends at the first single quote that is not doubled, and two
  single quotes in it stand for one. \<open>literalValue p\<close> is the text that \<open>p\<close> stands for
  inside a literal, and \<^term>\<open>None\<close> when \<open>p\<close> has a single quote that is not doubled:
  substituted into a literal, such a \<open>p\<close> ends the literal, and what follows the quote is
  read as part of the statement.
\<close>

fun literalValue :: "string \<Rightarrow> string option" where
  "literalValue [] = Some []"
| "literalValue [c] = (if c = CHR 0x27 then None else Some [c])"
| "literalValue (c # d # cs) =
     (if c = CHR 0x27 then
        (if d = CHR 0x27 then map_option (Cons c) (literalValue cs) else None)
      else map_option (Cons c) (literalValue (d # cs)))"

text \<open>
  How the database reads the text of a statement. \<open>expect s t\<close> reads the fixed text \<open>s\<close>
  at the start of \<open>t\<close> and returns the rest; \<open>readLiteral\<close> reads a literal from behind
  its opening quote to its closing quote and returns its value and the rest; \<open>readLike\<close>
  reads \<^verbatim>\<open>col like '...' escape '\'\<close>; \<open>readNames\<close> reads four of these on one column,
  joined by \<^verbatim>\<open>or\<close> and put in parentheses; \<open>readWhere\<close> reads such a group alone or
  followed by \<^verbatim>\<open>and not\<close> and a second group, up to the given end of the statement.
  \<open>parseStatement\<close> reads a whole statement of one of the two forms that \<^verbatim>\<open>_runQuery\<close>
  sends. Its result is \<^term>\<open>None\<close> for every other text, among them the texts in which the
  term has ended its literal; what the database does with such a text (it may fail, and
  it may run a different statement) is left to the environment.
\<close>

definition expect :: "string \<Rightarrow> string \<Rightarrow> string option" where
  "expect s t = (if prefix s t then Some (drop (length s) t) else None)"

fun readLiteral :: "string \<Rightarrow> (string \<times> string) option" where
  "readLiteral [] = None"
| "readLiteral [c] = (if c = CHR 0x27 then Some ([], []) else None)"
| "readLiteral (c # d # cs) =
     (if c = CHR 0x27 then
        (if d = CHR 0x27 then map_option (\<lambda>(v, r). (c # v, r)) (readLiteral cs)
         else Some ([], d # cs))
      else map_option (\<lambda>(v, r). (c # v, r)) (readLiteral (d # cs)))"

definition readLike :: "string \<Rightarrow> string \<Rightarrow> (cond \<times> string) option" where
  "readLike col t =
     Option.bind (expect (col @ '' like '' @ [CHR 0x27]) t) (\<lambda>t1.
     Option.bind (readLiteral t1) (\<lambda>(pat, t2).
     map_option (\<lambda>t3. (Like col pat, t3)) (expect ('' escape '' @ backslashLiteral) t2)))"

definition readNames :: "string \<Rightarrow> string \<Rightarrow> (cond \<times> string) option" where
  "readNames col t =
     Option.bind (expect ''('' t) (\<lambda>t1.
     Option.bind (readLike col t1) (\<lambda>(l1, t2).
     Option.bind (expect ''  or '' t2) (\<lambda>t3.
     Option.bind (readLike col t3) (\<lambda>(l2, t4).
     Option.bind (expect '' or '' t4) (\<lambda>t5.
     Option.bind (readLike col t5) (\<lambda>(l3, t6).
     Option.bind (expect '' or '' t6) (\<lambda>t7.
     Option.bind (readLike col t7) (\<lambda>(l4, t8).
     map_option (\<lambda>t9. (Or (Or (Or l1 l2) l3) l4, t9)) (expect '')'' t8)))))))))"

definition readWhere :: "string \<Rightarrow> string \<Rightarrow> string \<Rightarrow> string \<Rightarrow> cond option" where
  "readWhere col gap rest t =
     Option.bind (readNames col t) (\<lambda>(c1, t1).
     Option.bind (expect gap t1) (\<lambda>t2.
       if t2 = rest then Some c1
       else Option.bind (expect '' and not '' t2) (\<lambda>t3.
            Option.bind (readNames col t3) (\<lambda>(c2, t4).
            Option.bind (expect '' '' t4) (\<lambda>t5.
              if t5 = rest then Some (And c1 (Not c2)) else None)))))"

text \<open>The name column of a docset type, and the fixed parts of the statement on it:
  the text up to the condition, the blanks behind the first group, and the text from
  \<^verbatim>\<open>order by\<close> on.\<close>

definition nameColumn :: "docsetType \<Rightarrow> string" where
  "nameColumn t = (case t of Dash \<Rightarrow> ''t.name'' | ZDash \<Rightarrow> ''ztokenname'')"

definition selectHead :: "docsetType \<Rightarrow> string" where
  "selectHead t =
     (case t of
        Dash \<Rightarrow> ''select t.name, null, t.path from searchIndex t where ''
      | ZDash \<Rightarrow>
          ''select ztokenname, null, zpath, zanchor from ztoken '' @
          ''join ztokenmetainformation on ztoken.zmetainformation = ztokenmetainformation.z_pk '' @
          ''join zfilepath on ztokenmetainformation.zfile = zfilepath.z_pk where '')"

definition selectGap :: "docsetType \<Rightarrow> string" where
  "selectGap t = (case t of Dash \<Rightarrow> ''  '' | ZDash \<Rightarrow> '' '')"

definition selectRest :: "docsetType \<Rightarrow> string" where
  "selectRest t =
     (case t of
        Dash \<Rightarrow> '' order by length(t.name), lower(t.name) asc, t.path asc limit 100''
      | ZDash \<Rightarrow>
          '' order by length(ztokenname), lower(ztokenname) asc, zpath asc, '' @
          ''zanchor asc limit 100'')"

definition parseStatement :: "string \<Rightarrow> sqlQuery option" where
  "parseStatement t =
     (case expect (selectHead Dash) t of
        Some t1 \<Rightarrow>
          map_option SelectSearchIndex
            (readWhere (nameColumn Dash) (selectGap Dash) (selectRest Dash) t1)
      | None \<Rightarrow>
          Option.bind (expect (selectHead ZDash) t) (\<lambda>t1.
            map_option SelectZToken
              (readWhere (nameColumn ZDash) (selectGap ZDash) (selectRest ZDash) t1)))"

text \<open>The text of one condition and of a group of four on the term \<open>x\<close>, as the formats
  of \<^verbatim>\<open>_runQuery\<close> produce them.\<close>

definition likeText :: "string \<Rightarrow> string \<Rightarrow> string" where
  "likeText col x = col @ '' like '' @ [CHR 0x27] @ x @ [CHR 0x27] @ '' escape '' @ backslashLiteral"

definition namesText :: "string \<Rightarrow> string \<Rightarrow> string" where
  "namesText col x =
     ''('' @ likeText col (x @ ''%'') @ ''  or '' @ likeText col (''%.'' @ x @ ''%'') @
     '' or '' @ likeText col (''%::'' @ x @ ''%'') @ '' or '' @ likeText col (''%/'' @ x @ ''%'') @ '')''"

section \<open>Sorting\<close>

text \<open>
  \<^verbatim>\<open>qSort\<close> is Qt's, from \<^verbatim>\<open>qalgorithms.h\<close>: a quicksort on the range with the median
  of the first, middle and last element as pivot. Its parameter \<open>lt\<close> is the library's
  \<^verbatim>\<open>lessThan\<close>, which for \<^verbatim>\<open>qSort(results)\<close> is \<^verbatim>\<open>operator<\<close> of the element type.
\<close>

text \<open>\<^verbatim>\<open>qSwap(*i, *j)\<close> on the elements at two positions.\<close>

definition qSwap :: "'a list \<Rightarrow> nat \<Rightarrow> nat \<Rightarrow> 'a list" where
  "qSwap xs i j = xs[i := xs ! j, j := xs ! i]"

text \<open>The two inner loops of the partition: \<^verbatim>\<open>while (low < high && lessThan(*low, *end))
  ++low\<close> and \<^verbatim>\<open>while (high > low && lessThan(*end, *high)) --high\<close>.\<close>

function scanUp :: "('a \<Rightarrow> 'a \<Rightarrow> bool) \<Rightarrow> 'a list \<Rightarrow> nat \<Rightarrow> nat \<Rightarrow> nat \<Rightarrow> nat" where
  "scanUp lt xs e low high =
     (if low < high \<and> lt (xs ! low) (xs ! e) then scanUp lt xs e (low + 1) high
      else low)"
  by pat_completeness auto
termination
  by (relation "measure (\<lambda>(lt, xs, e, low, high). high - low)") auto

function scanDown :: "('a \<Rightarrow> 'a \<Rightarrow> bool) \<Rightarrow> 'a list \<Rightarrow> nat \<Rightarrow> nat \<Rightarrow> nat \<Rightarrow> nat" where
  "scanDown lt xs e low high =
     (if high > low \<and> lt (xs ! e) (xs ! high) then scanDown lt xs e low (high - 1)
      else high)"
  by pat_completeness auto
termination
  by (relation "measure (\<lambda>(lt, xs, e, low, high). high - low)") auto

declare scanUp.simps [simp del] scanDown.simps [simp del]

lemma scanUp_bounds: "low \<le> scanUp lt xs e low high \<and> (low \<le> high \<longrightarrow> scanUp lt xs e low high \<le> high)"
proof (induction lt xs e low high rule: scanUp.induct)
  case (1 lt xs e low high)
  show ?case
  proof (cases "low < high \<and> lt (xs ! low) (xs ! e)")
    case True
    with "1.IH" [OF True] show ?thesis by (auto simp: scanUp.simps [of lt xs e low high])
  next
    case False
    then show ?thesis by (auto simp: scanUp.simps [of lt xs e low high])
  qed
qed

lemma scanDown_bounds: "scanDown lt xs e low high \<le> high \<and> (low \<le> high \<longrightarrow> low \<le> scanDown lt xs e low high)"
proof (induction lt xs e low high rule: scanDown.induct)
  case (1 lt xs e low high)
  show ?case
  proof (cases "high > low \<and> lt (xs ! e) (xs ! high)")
    case True
    with "1.IH" [OF True] show ?thesis by (auto simp: scanDown.simps [of lt xs e low high])
  next
    case False
    then show ?thesis by (auto simp: scanDown.simps [of lt xs e low high])
  qed
qed

text \<open>The outer loop \<^verbatim>\<open>while (low < high)\<close>; it returns the list and \<open>low\<close>.\<close>

function partitionLoop ::
  "('a \<Rightarrow> 'a \<Rightarrow> bool) \<Rightarrow> nat \<Rightarrow> 'a list \<Rightarrow> nat \<Rightarrow> nat \<Rightarrow> 'a list \<times> nat" where
  "partitionLoop lt e xs low high =
     (if low < high then
        let low1 = scanUp lt xs e low high;
            high1 = scanDown lt xs e low1 high
        in if low1 < high1 then partitionLoop lt e (qSwap xs low1 high1) (low1 + 1) (high1 - 1)
           else (xs, low1)
      else (xs, low))"
  by pat_completeness auto
termination
proof (relation "measure (\<lambda>(lt, e, xs, low, high). high - low)")
  show "wf (measure (\<lambda>(lt, e, xs, low, high). high - low))" by simp
next
  fix lt :: "'a \<Rightarrow> 'a \<Rightarrow> bool" and e :: nat and xs :: "'a list" and low high low1 high1 :: nat
  assume "low < high" and l: "low1 = scanUp lt xs e low high"
    and h: "high1 = scanDown lt xs e low1 high" and "low1 < high1"
  moreover have "low \<le> low1" unfolding l using scanUp_bounds [of low lt xs e high] by simp
  moreover have "high1 \<le> high" unfolding h using scanDown_bounds [of lt xs e low1 high] by simp
  ultimately show "((lt, e, qSwap xs low1 high1, low1 + 1, high1 - 1), (lt, e, xs, low, high))
      \<in> measure (\<lambda>(lt, e, xs, low, high). high - low)"
    by simp
qed

declare partitionLoop.simps [simp del]

lemma length_qSwap [simp]: "length (qSwap xs i j) = length xs"
  by (simp add: qSwap_def)

lemma partitionLoop_bounds:
  "length (fst (partitionLoop lt e xs low high)) = length xs \<and>
   snd (partitionLoop lt e xs low high) \<le> max low high"
proof (induction lt e xs low high rule: partitionLoop.induct)
  case (1 lt e xs low high)
  define low1 where "low1 = scanUp lt xs e low high"
  define high1 where "high1 = scanDown lt xs e low1 high"
  show ?case
  proof (cases "low < high")
    case False
    then show ?thesis by (simp add: partitionLoop.simps [of lt e xs low high])
  next
    case lh: True
    then have b1: "low \<le> low1" "low1 \<le> high"
      unfolding low1_def using scanUp_bounds [of low lt xs e high] by simp_all
    have b2: "high1 \<le> high"
      unfolding high1_def using scanDown_bounds [of lt xs e low1 high] by simp
    show ?thesis
    proof (cases "low1 < high1")
      case True
      from "1.IH" [OF lh low1_def high1_def True]
      have "length (fst (partitionLoop lt e (qSwap xs low1 high1) (low1 + 1) (high1 - 1))) = length xs"
        and "snd (partitionLoop lt e (qSwap xs low1 high1) (low1 + 1) (high1 - 1))
            \<le> max (low1 + 1) (high1 - 1)" by simp_all
      moreover have "partitionLoop lt e xs low high
          = partitionLoop lt e (qSwap xs low1 high1) (low1 + 1) (high1 - 1)"
        using lh True by (simp add: partitionLoop.simps [of lt e xs low high] low1_def high1_def Let_def)
      ultimately show ?thesis using True b1 b2 by simp
    next
      case False
      then have "partitionLoop lt e xs low high = (xs, low1)"
        using lh by (simp add: partitionLoop.simps [of lt e xs low high] low1_def high1_def Let_def)
      with b1 show ?thesis by simp
    qed
  qed
qed

text \<open>\<^verbatim>\<open>qSortHelper(start, end, t, lessThan)\<close> on the range as a list of its own: the
  recursive call sorts the part before the pivot and the jump to \<^verbatim>\<open>top\<close> the part behind
  it.\<close>

function qSortHelper :: "('a \<Rightarrow> 'a \<Rightarrow> bool) \<Rightarrow> 'a list \<Rightarrow> 'a list" where
  "qSortHelper lt xs =
     (let span = length xs in
      if span < 2 then xs
      else
        let e = span - 1;
            pivot = span div 2;
            xs1 = (if lt (xs ! e) (xs ! 0) then qSwap xs e 0 else xs)
        in if span = 2 then xs1
           else
             let xs2 = (if lt (xs1 ! pivot) (xs1 ! 0) then qSwap xs1 pivot 0 else xs1);
                 xs3 = (if lt (xs2 ! e) (xs2 ! pivot) then qSwap xs2 e pivot else xs2)
             in if span = 3 then xs3
                else
                  let xs4 = qSwap xs3 pivot e;
                      part = partitionLoop lt e xs4 0 (e - 1);
                      xs5 = fst part;
                      low = (if lt (xs5 ! snd part) (xs5 ! e) then snd part + 1 else snd part);
                      xs6 = qSwap xs5 e low
                  in qSortHelper lt (take low xs6) @ [xs6 ! low] @
                     qSortHelper lt (drop (low + 1) xs6))"
  by pat_completeness auto
termination
proof (relation "measure (\<lambda>(lt, xs). length xs)")
  show "wf (measure (\<lambda>(lt, xs). length xs))" by simp
next
  fix lt :: "'a \<Rightarrow> 'a \<Rightarrow> bool" and xs xs1 xs2 xs3 xs4 xs5 xs6 :: "'a list"
    and span e pivot low :: nat and part
  assume "span = length xs" "\<not> span < 2" "e = span - 1" "part = partitionLoop lt e xs4 0 (e - 1)"
    "low = (if lt (xs5 ! snd part) (xs5 ! e) then snd part + 1 else snd part)"
  moreover have "snd (partitionLoop lt e xs4 0 (e - 1)) \<le> e - 1"
    using partitionLoop_bounds [of lt e xs4 0 "e - 1"] by simp
  ultimately have "low < length xs" by (auto split: if_splits)
  then show "((lt, take low xs6), (lt, xs)) \<in> measure (\<lambda>(lt, xs). length xs)"
    by simp
next
  fix lt :: "'a \<Rightarrow> 'a \<Rightarrow> bool" and xs xs1 xs2 xs3 xs4 xs5 xs6 :: "'a list"
    and span e pivot low :: nat and part
  assume "span = length xs" "\<not> span < 2" "e = span - 1"
    "xs1 = (if lt (xs ! e) (xs ! 0) then qSwap xs e 0 else xs)"
    "xs2 = (if lt (xs1 ! pivot) (xs1 ! 0) then qSwap xs1 pivot 0 else xs1)"
    "xs3 = (if lt (xs2 ! e) (xs2 ! pivot) then qSwap xs2 e pivot else xs2)"
    "xs4 = qSwap xs3 pivot e"
    "part = partitionLoop lt e xs4 0 (e - 1)" "xs5 = fst part" "xs6 = qSwap xs5 e low"
  moreover have "length (fst (partitionLoop lt e xs4 0 (e - 1))) = length xs4"
    using partitionLoop_bounds [of lt e xs4 0 "e - 1"] by simp
  ultimately have "length xs6 = length xs" by (auto split: if_splits)
  moreover assume "\<not> span < 2" "span = length xs"
  ultimately show "((lt, drop (low + 1) xs6), (lt, xs)) \<in> measure (\<lambda>(lt, xs). length xs)"
    by simp
qed

declare qSortHelper.simps [simp del]

text \<open>\<^verbatim>\<open>qSort(Container &c)\<close>.\<close>

definition qSort :: "('a \<Rightarrow> 'a \<Rightarrow> bool) \<Rightarrow> 'a list \<Rightarrow> 'a list" where
  "qSort lt c = (if c = [] then c else qSortHelper lt c)"

text \<open>
  For the proof that the sort sorts, with \<open>lessThan\<close> comparing a key \<open>f\<close>: what holds of
  the range whenever the outer loop of the partition tests its condition (\<open>e\<close> is the
  position of the pivot and \<open>pv\<close> its key, \<open>M\<close> the elements of the range), and what
  holds when the loop is left.
\<close>

definition partInv ::
  "('a \<Rightarrow> 'k::linorder) \<Rightarrow> nat \<Rightarrow> 'k \<Rightarrow> 'a multiset \<Rightarrow> 'a list \<Rightarrow> nat \<Rightarrow> nat \<Rightarrow> bool" where
  "partInv f e pv M xs low high \<longleftrightarrow>
     e < length xs \<and> high < e \<and> low < e \<and> low \<le> high + 1 \<and> f (xs ! e) = pv \<and> mset xs = M \<and>
     (\<forall>i<low. f (xs ! i) \<le> pv) \<and> (\<forall>i. high < i \<and> i < e \<longrightarrow> pv \<le> f (xs ! i))"

definition partPost ::
  "('a \<Rightarrow> 'k::linorder) \<Rightarrow> nat \<Rightarrow> 'k \<Rightarrow> 'a multiset \<Rightarrow> nat \<Rightarrow> 'a list \<times> nat \<Rightarrow> bool" where
  "partPost f e pv M n r \<longleftrightarrow>
     length (fst r) = n \<and> snd r < e \<and> f (fst r ! e) = pv \<and> mset (fst r) = M \<and>
     (\<forall>i<snd r. f (fst r ! i) \<le> pv) \<and> (\<forall>i. snd r < i \<and> i < e \<longrightarrow> pv \<le> f (fst r ! i))"

section \<open>The registry\<close>

text \<open>
  \<^verbatim>\<open>Docset\<close>, \<^verbatim>\<open>SearchQuery\<close> and \<^verbatim>\<open>SearchResult\<close> are classes of the repository whose
  files are not among the sources; the registry only reads the members below. \<open>db\<close> is the
  docset's \<^verbatim>\<open>QSqlDatabase\<close>: the number of a connection, or \<^term>\<open>None\<close> for the
  default-constructed database, which has no connection.
\<close>

record Docset =
  dname :: string
  dprefix :: string
  dtype :: docsetType
  db :: "nat option"
  isValid :: bool

record SearchQuery =
  sanitizedQuery :: string
  hasDocsetFilter :: bool
  docsetPrefixMatch :: "string \<Rightarrow> bool"

record SearchResult =
  resultName :: string
  parentName :: "string option"
  resultPath :: string
  docsetName :: string
  originalQuery :: "string option"

text \<open>
  What the registry calls and the sources do not hold is a parameter of the model:
  the constructor \<^verbatim>\<open>Docset(path)\<close>, the default constructor \<^verbatim>\<open>Docset()\<close> that
  \<^verbatim>\<open>QMap::operator[]\<close> runs for a missing key, the constructor \<^verbatim>\<open>SearchQuery(rawQuery)\<close>,
  the content of the database behind each connection, and the rows that database
  returns for a statement text that \<open>parseStatement\<close> does not read (\<open>otherRows\<close>).
\<close>

record environment =
  loadDocset :: "string \<Rightarrow> Docset"
  defaultDocset :: Docset
  parseQuery :: "string \<Rightarrow> SearchQuery"
  stores :: "nat \<Rightarrow> store"
  otherRows :: "nat \<Rightarrow> string \<Rightarrow> variant list list"

text \<open>
  The members of \<^verbatim>\<open>DocsetRegistry\<close>. \<open>closedDbs\<close> holds the connections that
  \<^verbatim>\<open>db.close()\<close> has closed and \<open>queryCompleted\<close> counts the emissions of the signal of
  that name. \<open>m_docs\<close> is a \<^verbatim>\<open>QMap\<close>: an association list in the order of its keys.
\<close>

record DocsetRegistry =
  m_docs :: "(string \<times> Docset) list"
  m_queryResults :: "SearchResult list"
  m_lastQuery :: int
  closedDbs :: "nat set"
  queryCompleted :: nat

fun qmapInsert :: "string \<Rightarrow> 'v \<Rightarrow> (string \<times> 'v) list \<Rightarrow> (string \<times> 'v) list" where
  "qmapInsert k v [] = [(k, v)]"
| "qmapInsert k v ((k', v') # m) =
     (if k < k' then (k, v) # (k', v') # m
      else if k = k' then (k, v) # m
      else (k', v') # qmapInsert k v m)"

definition qmapRemove :: "string \<Rightarrow> (string \<times> 'v) list \<Rightarrow> (string \<times> 'v) list" where
  "qmapRemove k m = filter (\<lambda>kv. fst kv \<noteq> k) m"

text \<open>\<^verbatim>\<open>QMap::operator[]\<close> on a map that is not constant: a missing key is inserted with
  a default-constructed value.\<close>

definition qmapSubscript :: "string \<Rightarrow> 'v \<Rightarrow> (string \<times> 'v) list \<Rightarrow> 'v \<times> (string \<times> 'v) list" where
  "qmapSubscript k dflt m =
     (case map_of m k of Some v \<Rightarrow> (v, m) | None \<Rightarrow> (dflt, qmapInsert k dflt m))"

definition count_docs :: "DocsetRegistry \<Rightarrow> nat" where
  "count_docs st = length (m_docs st)"

definition contains :: "string \<Rightarrow> DocsetRegistry \<Rightarrow> bool" where
  "contains name st = (map_of (m_docs st) name \<noteq> None)"

definition names :: "DocsetRegistry \<Rightarrow> string list" where
  "names st = map fst (m_docs st)"

definition docsets :: "DocsetRegistry \<Rightarrow> Docset list" where
  "docsets st = map snd (m_docs st)"

fun closeDb :: "nat option \<Rightarrow> nat set \<Rightarrow> nat set" where
  "closeDb None closed = closed"
| "closeDb (Some h) closed = insert h closed"

definition remove :: "environment \<Rightarrow> string \<Rightarrow> DocsetRegistry \<Rightarrow> DocsetRegistry" where
  "remove E name st =
     (let (d, m1) = qmapSubscript name (defaultDocset E) (m_docs st)
      in st\<lparr>closedDbs := closeDb (db d) (closedDbs st), m_docs := qmapRemove name m1\<rparr>)"

definition clear :: "environment \<Rightarrow> DocsetRegistry \<Rightarrow> DocsetRegistry" where
  "clear E st = foldl (\<lambda>s key. remove E key s) st (names st)"

definition addDocset :: "environment \<Rightarrow> string \<Rightarrow> DocsetRegistry \<Rightarrow> DocsetRegistry" where
  "addDocset E path st =
     (let docset = loadDocset E path
      in if \<not> isValid docset then st
         else let st1 = (if contains (dname docset) st then remove E (dname docset) st else st)
              in st1\<lparr>m_docs := qmapInsert (dname docset) docset (m_docs st1)\<rparr>)"

definition entry :: "environment \<Rightarrow> string \<Rightarrow> DocsetRegistry \<Rightarrow> Docset \<times> DocsetRegistry" where
  "entry E name st =
     (let (d, m1) = qmapSubscript name (defaultDocset E) (m_docs st) in (d, st\<lparr>m_docs := m1\<rparr>))"

text \<open>\<^verbatim>\<open>docset.db.exec(qstr)\<close>: a database without a connection, or whose connection is
  closed, runs nothing and the query it returns has no rows.\<close>

definition dbExec :: "environment \<Rightarrow> nat set \<Rightarrow> Docset \<Rightarrow> sqlQuery \<Rightarrow> variant list list" where
  "dbExec E closed d q =
     (case db d of None \<Rightarrow> [] | Some h \<Rightarrow> if h \<in> closed then [] else exec (stores E h) q)"

text \<open>\<^verbatim>\<open>docset.db.exec(qstr)\<close> on the text of a statement of the search: the database
  reads the text and runs the statement it has read.\<close>

definition dbExecText :: "environment \<Rightarrow> nat set \<Rightarrow> Docset \<Rightarrow> string \<Rightarrow> variant list list" where
  "dbExecText E closed d qstr =
     (case db d of
        None \<Rightarrow> []
      | Some h \<Rightarrow>
          if h \<in> closed then []
          else (case parseStatement qstr of
                  Some q \<Rightarrow> exec (stores E h) q
                | None \<Rightarrow> otherRows E h qstr))"

section \<open>The search\<close>

text \<open>
  The formats of \<^verbatim>\<open>_runQuery\<close>: \<^verbatim>\<open>subNames\<close> with its three alternatives for qualified
  names, the two formats of \<^verbatim>\<open>notQuery\<close> and the two formats of the statement.
\<close>

definition subNames :: string where
  "subNames =
     '' or %1 like '%.%2%' escape '' @ backslashLiteral @
     '' or %1 like '%::%2%' escape '' @ backslashLiteral @
     '' or %1 like '%/%2%' escape '' @ backslashLiteral"

definition notQueryZDash :: string where
  "notQueryZDash = '' and not (ztokenname like '%1%' escape '' @ backslashLiteral @ '' %2) ''"

definition notQueryDash :: string where
  "notQueryDash = '' and not (t.name like '%1%' escape '' @ backslashLiteral @ '' %2) ''"

definition selectDash :: string where
  "selectDash =
     ''select t.name, null, t.path from searchIndex t where (t.name '' @
     ''like '%1%' escape '' @ backslashLiteral @
     '' %3)  %2 order by length(t.name), lower(t.name) asc, t.path asc limit 100''"

definition selectZDash :: string where
  "selectZDash =
     ''select ztokenname, null, zpath, zanchor from ztoken '' @
     ''join ztokenmetainformation on ztoken.zmetainformation = ztokenmetainformation.z_pk '' @
     ''join zfilepath on ztokenmetainformation.zfile = zfilepath.z_pk where (ztokenname '' @
     ''like '%1%' escape '' @ backslashLiteral @
     '' %3) %2 order by length(ztokenname), lower(ztokenname) asc, zpath asc, '' @
     ''zanchor asc limit 100''"

text \<open>The text \<^verbatim>\<open>qstr\<close> that one pass of the loop \<^verbatim>\<open>while (found.size() < 100)\<close> puts
  together for a docset, from the sanitised term and the mode of the pass.\<close>

definition statementText :: "Docset \<Rightarrow> string \<Rightarrow> bool \<Rightarrow> string" where
  "statementText docset preparedQuery withSubStrings =
     (let curQuery = (if withSubStrings then ''%'' @ preparedQuery else preparedQuery);
          notQuery = (if withSubStrings then
                        (if dtype docset = ZDash
                         then arg notQueryZDash [preparedQuery, arg subNames [''ztokenname'', preparedQuery]]
                         else arg notQueryDash [preparedQuery, arg subNames [''t.name'', preparedQuery]])
                      else [])
      in case dtype docset of
           Dash \<Rightarrow> arg selectDash [curQuery, notQuery, arg subNames [''t.name'', curQuery]]
         | ZDash \<Rightarrow> arg selectZDash [curQuery, notQuery, arg subNames [''ztokenname'', curQuery]])"

text \<open>\<^verbatim>\<open>q.value(i)\<close> and \<^verbatim>\<open>row[i]\<close>; a column the row does not have is a null variant.\<close>

definition valueAt :: "variant list \<Rightarrow> nat \<Rightarrow> variant" where
  "valueAt row i = (if i < length row then row ! i else Null)"

text \<open>
  The loop \<^verbatim>\<open>while (found.size() < 100)\<close> of \<^verbatim>\<open>_runQuery\<close> for one docset. Besides
  \<open>found\<close> the function returns, for every call of \<^verbatim>\<open>docset.db.exec\<close>, the text of the
  statement and the rows read from it, in the order of the calls.
\<close>

function searchLoop ::
  "environment \<Rightarrow> nat set \<Rightarrow> Docset \<Rightarrow> string \<Rightarrow> bool \<Rightarrow> variant list list \<Rightarrow>
   (string \<times> variant list list) list \<Rightarrow>
   variant list list \<times> (string \<times> variant list list) list" where
  "searchLoop E closed docset preparedQuery withSubStrings found calls =
     (if length found < 100 then
        let cols = (if dtype docset = ZDash then 4 else 3);
            qstr = statementText docset preparedQuery withSubStrings;
            values = map (\<lambda>r. map (valueAt r) [0..<cols]) (dbExecText E closed docset qstr);
            found' = found @ values;
            calls' = calls @ [(qstr, values)]
        in if withSubStrings then (found', calls')
           else searchLoop E closed docset preparedQuery True found' calls'
      else (found, calls))"
  by pat_completeness auto
termination
  by (relation "measure (\<lambda>(E, closed, docset, preparedQuery, withSubStrings, found, calls).
        if withSubStrings then 0 else 1)") auto

declare searchLoop.simps [simp del]

text \<open>The body of the loop over \<open>found\<close>: one row becomes one result.\<close>

definition rowResult :: "Docset \<Rightarrow> string \<Rightarrow> variant list \<Rightarrow> SearchResult" where
  "rowResult docset preparedQuery row =
     (let parentName0 = (if \<not> isNull (valueAt row 1) then toQString (valueAt row 1) else None);
          path0 = toString (valueAt row 2);
          path1 = (if dtype docset = ZDash then path0 @ ''#'' @ toString (valueAt row 3) else path0);
          itemName = toString (valueAt row 0);
          normalized = normalizeName itemName parentName0 (toQString (valueAt row 1))
      in \<lparr>resultName = fst normalized, parentName = snd normalized, resultPath = path1,
          docsetName = dname docset, originalQuery = Some preparedQuery\<rparr>)"

text \<open>The loop over the docsets: the results of \<^verbatim>\<open>_runQuery\<close> before they are sorted.\<close>

definition searchDocsets :: "environment \<Rightarrow> DocsetRegistry \<Rightarrow> string \<Rightarrow> SearchResult list" where
  "searchDocsets E st rawQuery =
     (let query = parseQuery E rawQuery;
          preparedQuery = sanitizedQuery query
      in concat (map (\<lambda>docset.
           if hasDocsetFilter query \<and> \<not> docsetPrefixMatch query (dprefix docset) then []
           else map (rowResult docset preparedQuery)
                  (fst (searchLoop E (closedDbs st) docset preparedQuery False [] [])))
         (docsets st)))"

text \<open>
  Modelled from the spec: \<^verbatim>\<open>SearchResult::operator<\<close>, which \<^verbatim>\<open>qSort(results)\<close> compares
  with (searchresult.cpp is not among the sources). The specification orders results by
  ascending name length, then case-insensitive name, then docset name, then path.
\<close>

definition resultKey :: "SearchResult \<Rightarrow> nat \<times> string \<times> string \<times> string" where
  "resultKey r = (length (resultName r), toLower (resultName r), docsetName r, resultPath r)"

definition resultLess :: "SearchResult \<Rightarrow> SearchResult \<Rightarrow> bool" where
  "resultLess a b = (resultKey a < resultKey b)"

text \<open>
  \<^verbatim>\<open>_runQuery(rawQuery, queryNum)\<close> as one thread runs it: the check at its entry with
  the search and the sort behind it (\<open>runQuery_entry\<close>), and the second check with the
  assignment to \<^verbatim>\<open>m_queryResults\<close> and the signal behind it (\<open>runQuery_publish\<close>). What
  the thread of the caller can do in between is the subject of the section on query
  submission, where the second check and the assignment are separate steps.
\<close>

definition computeResults :: "environment \<Rightarrow> DocsetRegistry \<Rightarrow> string \<Rightarrow> SearchResult list" where
  "computeResults E st rawQuery = qSort resultLess (searchDocsets E st rawQuery)"

definition runQuery_entry ::
  "environment \<Rightarrow> string \<Rightarrow> int \<Rightarrow> DocsetRegistry \<Rightarrow> SearchResult list option" where
  "runQuery_entry E rawQuery queryNum st =
     (if queryNum \<noteq> m_lastQuery st then None else Some (computeResults E st rawQuery))"

definition runQuery_publish :: "int \<Rightarrow> SearchResult list \<Rightarrow> DocsetRegistry \<Rightarrow> DocsetRegistry" where
  "runQuery_publish queryNum results st =
     (if queryNum \<noteq> m_lastQuery st then st
      else st\<lparr>m_queryResults := results, queryCompleted := queryCompleted st + 1\<rparr>)"

text \<open>The whole of \<^verbatim>\<open>_runQuery\<close> when the caller does nothing while it runs.\<close>

definition priv_runQuery :: "environment \<Rightarrow> string \<Rightarrow> int \<Rightarrow> DocsetRegistry \<Rightarrow> DocsetRegistry" where
  "priv_runQuery E rawQuery queryNum st =
     (case runQuery_entry E rawQuery queryNum st of
        None \<Rightarrow> st
      | Some results \<Rightarrow> runQuery_publish queryNum results st)"

definition queryResults :: "DocsetRegistry \<Rightarrow> SearchResult list" where
  "queryResults st = m_queryResults st"

text \<open>
  \<^verbatim>\<open>relatedLinks(name, path)\<close>. \<^verbatim>\<open>QUrl\<close> is modelled by what the function uses it for: the
  path without its fragment. The call \<^verbatim>\<open>normalizeName(sectionName, parentName)\<close> leaves
  the third parameter to the default of the declaration, the null string. The registry is
  returned too, since \<^verbatim>\<open>m_docs[name]\<close> can change the map.
\<close>

definition relatedLinks ::
  "environment \<Rightarrow> string \<Rightarrow> string \<Rightarrow> DocsetRegistry \<Rightarrow> SearchResult list \<times> DocsetRegistry" where
  "relatedLinks E name path st =
     (let pageUrl = takeWhile (\<lambda>c. c \<noteq> CHR ''#'') path;
          (entry, m1) = qmapSubscript name (defaultDocset E) (m_docs st);
          query = (case dtype entry of
                     Dash \<Rightarrow> RelatedSearchIndex pageUrl
                   | ZDash \<Rightarrow> RelatedZToken pageUrl);
          result = dbExec E (closedDbs st) entry query
      in (map (\<lambda>row.
            let sectionName = toString (valueAt row 0);
                sectionPath = toString (valueAt row 2);
                sectionPath' = (if dtype entry = ZDash
                                then sectionPath @ ''#'' @ toString (valueAt row 3)
                                else sectionPath);
                normalized = normalizeName sectionName None None
            in \<lparr>resultName = fst normalized, parentName = None, resultPath = sectionPath',
                docsetName = name, originalQuery = None\<rparr>) result,
          st\<lparr>m_docs := m1\<rparr>))"

text \<open>
  The two statements of the loop as the database reads them when the term stays inside
  its literals, named for the theorems about the loop: the conditions on the name column
  (the prefix pattern and the three patterns for qualified names, joined by \<^verbatim>\<open>or\<close>),
  the statement of a docset type, the statement of the first pass (prefix mode) and of
  the second pass (substring mode) on the value \<open>v\<close> of the term, and the rows the loop
  reads from a statement.
\<close>

definition subNameConds :: "string \<Rightarrow> string \<Rightarrow> cond list" where
  "subNameConds col q =
     [Like col (''%.'' @ q @ ''%''), Like col (''%::'' @ q @ ''%''), Like col (''%/'' @ q @ ''%'')]"

definition nameCond :: "string \<Rightarrow> string \<Rightarrow> cond" where
  "nameCond col q = foldl Or (Like col (q @ ''%'')) (subNameConds col q)"

definition statement :: "docsetType \<Rightarrow> cond \<Rightarrow> sqlQuery" where
  "statement t c = (case t of Dash \<Rightarrow> SelectSearchIndex c | ZDash \<Rightarrow> SelectZToken c)"

definition phaseValues :: "environment \<Rightarrow> nat set \<Rightarrow> Docset \<Rightarrow> sqlQuery \<Rightarrow> variant list list" where
  "phaseValues E closed docset q =
     map (\<lambda>r. map (valueAt r) [0..<(if dtype docset = ZDash then 4 else 3)]) (dbExec E closed docset q)"

definition phase1 :: "Docset \<Rightarrow> string \<Rightarrow> sqlQuery" where
  "phase1 docset v = statement (dtype docset) (nameCond (nameColumn (dtype docset)) v)"

definition phase2 :: "Docset \<Rightarrow> string \<Rightarrow> sqlQuery" where
  "phase2 docset v =
     statement (dtype docset)
       (And (nameCond (nameColumn (dtype docset)) (''%'' @ v))
            (Not (nameCond (nameColumn (dtype docset)) v)))"

section \<open>Query submission and the worker\<close>

text \<open>
  \<^verbatim>\<open>runQuery\<close> and \<^verbatim>\<open>invalidateQueries\<close> run in the thread of their caller;
  \<^verbatim>\<open>_runQuery\<close> is invoked through a queued connection and runs in the thread the
  registry has moved itself to, one invocation after the other, in the order of their
  posting. Nothing synchronises the two threads, so the caller can raise \<^verbatim>\<open>m_lastQuery\<close>
  at any moment of a running \<^verbatim>\<open>_runQuery\<close>: before its first check, between its two
  checks, and between its second check and the assignment to \<^verbatim>\<open>m_queryResults\<close>. Each
  reading and each writing of the counter is taken as one step. The system below has the
  registry, the posted invocations that have not started (\<open>queue\<close>), the invocation
  that has passed its first check and has not reached its second (\<open>running\<close>, with the
  results it has computed), and the invocation that has passed its second check and has
  not yet assigned its results (\<open>checked\<close>). \<open>published\<close> is not a member of the program:
  it records, in their order, the invocations (query and number) whose results were
  stored in \<^verbatim>\<open>m_queryResults\<close>.

  \<^verbatim>\<open>m_lastQuery\<close> is an \<^verbatim>\<open>int\<close>; adding one to the greatest \<^verbatim>\<open>int\<close> is undefined in
  C++, and the model has no successor state there.
\<close>

definition INT_MAX :: int where
  "INT_MAX = 2147483647"

record system =
  reg :: DocsetRegistry
  queue :: "(string \<times> int) list"
  running :: "(string \<times> int \<times> SearchResult list) option"
  checked :: "(string \<times> int \<times> SearchResult list) option"
  published :: "(string \<times> int) list"

definition runQuery :: "string \<Rightarrow> system \<Rightarrow> system option" where
  "runQuery query s =
     (if m_lastQuery (reg s) = INT_MAX then None
      else Some (s\<lparr>reg := (reg s)\<lparr>m_lastQuery := m_lastQuery (reg s) + 1\<rparr>,
                   queue := queue s @ [(query, m_lastQuery (reg s) + 1)]\<rparr>))"

definition invalidateQueries :: "system \<Rightarrow> system option" where
  "invalidateQueries s =
     (if m_lastQuery (reg s) = INT_MAX then None
      else Some (s\<lparr>reg := (reg s)\<lparr>m_lastQuery := m_lastQuery (reg s) + 1\<rparr>\<rparr>))"

text \<open>The worker takes the next invocation and runs it up to the sort: stale at its
  entry, it returns at once.\<close>

definition workerBegin :: "environment \<Rightarrow> system \<Rightarrow> system" where
  "workerBegin E s =
     (if running s \<noteq> None \<or> checked s \<noteq> None then s
      else case queue s of
             [] \<Rightarrow> s
           | (rawQuery, queryNum) # rest \<Rightarrow>
               (case runQuery_entry E rawQuery queryNum (reg s) of
                  None \<Rightarrow> s\<lparr>queue := rest\<rparr>
                | Some results \<Rightarrow> s\<lparr>queue := rest, running := Some (rawQuery, queryNum, results)\<rparr>))"

text \<open>The running invocation reaches its second check,
  \<^verbatim>\<open>if (queryNum != m_lastQuery) return;\<close> behind the sort: stale, it returns.\<close>

definition workerCheck :: "system \<Rightarrow> system" where
  "workerCheck s =
     (case running s of
        None \<Rightarrow> s
      | Some (rawQuery, queryNum, results) \<Rightarrow>
          if queryNum \<noteq> m_lastQuery (reg s) then s\<lparr>running := None\<rparr>
          else s\<lparr>running := None, checked := Some (rawQuery, queryNum, results)\<rparr>)"

text \<open>The invocation that has passed its second check runs the two statements behind
  it, \<^verbatim>\<open>m_queryResults = results; emit queryCompleted();\<close>, and returns.\<close>

definition workerWrite :: "system \<Rightarrow> system" where
  "workerWrite s =
     (case checked s of
        None \<Rightarrow> s
      | Some (rawQuery, queryNum, results) \<Rightarrow>
          s\<lparr>reg := (reg s)\<lparr>m_queryResults := results, queryCompleted := queryCompleted (reg s) + 1\<rparr>,
            checked := None,
            published := published s @ [(rawQuery, queryNum)]\<rparr>)"

datatype event = Submit string | Invalidate | WorkerBegin | WorkerCheck | WorkerWrite

fun step :: "environment \<Rightarrow> event \<Rightarrow> system \<Rightarrow> system option" where
  "step E (Submit query) s = runQuery query s"
| "step E Invalidate s = invalidateQueries s"
| "step E WorkerBegin s = Some (workerBegin E s)"
| "step E WorkerCheck s = Some (workerCheck s)"
| "step E WorkerWrite s = Some (workerWrite s)"

fun run :: "environment \<Rightarrow> event list \<Rightarrow> system \<Rightarrow> system option" where
  "run E [] s = Some s"
| "run E (e # es) s = (case step E e s of None \<Rightarrow> None | Some s' \<Rightarrow> run E es s')"

definition initial :: "DocsetRegistry \<Rightarrow> system" where
  "initial r = \<lparr>reg = r, queue = [], running = None, checked = None, published = []\<rparr>"

text \<open>A state in which the worker has nothing left to do.\<close>

definition quiescent :: "system \<Rightarrow> bool" where
  "quiescent s \<longleftrightarrow> queue s = [] \<and> running s = None \<and> checked s = None"

section \<open>An example registry\<close>

text \<open>A flat store, a docset on it and a registry that holds the docset, for the
  theorems that are stated at concrete inputs.\<close>

definition exampleStore :: store where
  "exampleStore = DashStore
     [\<lparr>si_name = ''List'', si_type = ''Class'', si_path = ''list.html''\<rparr>,
      \<lparr>si_name = ''ArrayList'', si_type = ''Class'', si_path = ''arraylist.html''\<rparr>,
      \<lparr>si_name = ''ListIterator'', si_type = ''Class'', si_path = ''listiterator.html''\<rparr>,
      \<lparr>si_name = ''util.ListUtils'', si_type = ''Class'', si_path = ''listutils.html''\<rparr>,
      \<lparr>si_name = ''std::vector::push_back'', si_type = ''Method'', si_path = ''vector.html#push_back''\<rparr>]"

definition exampleDocset :: "nat \<Rightarrow> Docset" where
  "exampleDocset h = \<lparr>dname = ''Java'', dprefix = ''java'', dtype = Dash, db = Some h, isValid = True\<rparr>"

definition invalidDocset :: Docset where
  "invalidDocset = \<lparr>dname = [], dprefix = [], dtype = Dash, db = None, isValid = False\<rparr>"

definition exampleEnv :: environment where
  "exampleEnv =
     \<lparr>loadDocset = (\<lambda>path. if path = ''/docsets/Java.docset'' then exampleDocset 4 else invalidDocset),
      defaultDocset = invalidDocset,
      parseQuery = (\<lambda>raw. \<lparr>sanitizedQuery = raw, hasDocsetFilter = False, docsetPrefixMatch = (\<lambda>p. True)\<rparr>),
      stores = (\<lambda>h. exampleStore),
      otherRows = (\<lambda>h qstr. [])\<rparr>"

definition exampleRegistry :: DocsetRegistry where
  "exampleRegistry =
     \<lparr>m_docs = [(''Java'', exampleDocset 3)], m_queryResults = [], m_lastQuery = 0,
      closedDbs = {}, queryCompleted = 0\<rparr>"

text \<open>The example environment with a store of 150 rows that all match \<open>list\<close>.\<close>

definition fullEnv :: environment where
  "fullEnv = exampleEnv\<lparr>stores := (\<lambda>h. DashStore
     (replicate 150 \<lparr>si_name = ''list'', si_type = ''Class'', si_path = ''list.html''\<rparr>))\<rparr>"

text \<open>The example environment with a store of three rows, two of which get the same
  display name and path.\<close>

definition unstableEnv :: environment where
  "unstableEnv = exampleEnv\<lparr>stores := (\<lambda>h. DashStore
     [\<lparr>si_name = ''a.cz'', si_type = ''Method'', si_path = ''p.html''\<rparr>,
      \<lparr>si_name = ''b.cz'', si_type = ''Method'', si_path = ''p.html''\<rparr>,
      \<lparr>si_name = ''bc'', si_type = ''Method'', si_path = ''q.html''\<rparr>])\<rparr>"

section \<open>Properties of the pattern\<close>

lemma rx_Zero: "\<not> rx_matches Zero s"
  by (induction s) auto

lemma rx_Eps: "rx_matches Eps s \<longleftrightarrow> s = []"
  by (cases s) (auto simp: rx_Zero)

lemma rx_Alt: "rx_matches (Alt r t) s \<longleftrightarrow> rx_matches r s \<or> rx_matches t s"
  by (induction s arbitrary: r t) auto

lemma rx_Chr: "rx_matches (Chr c) s \<longleftrightarrow> s = [c]"
  by (cases s) (auto simp: rx_Zero rx_Eps)

lemma rx_NotChr: "rx_matches (NotChr c) s \<longleftrightarrow> (\<exists>a. s = [a] \<and> a \<noteq> c)"
  by (cases s) (auto simp: rx_Zero rx_Eps)

lemma rx_Seq:
  "rx_matches (Seq r t) s \<longleftrightarrow>
     (\<exists>k\<le>length s. rx_matches r (take k s) \<and> rx_matches t (drop k s))"
proof (induction s arbitrary: r)
  case Nil
  show ?case by simp
next
  case (Cons a as)
  have split: "(\<exists>k\<le>length (a # as). rx_matches r (take k (a # as)) \<and> rx_matches t (drop k (a # as)))
      \<longleftrightarrow> (nullable r \<and> rx_matches t (a # as)) \<or>
          (\<exists>k\<le>length as. rx_matches (deriv a r) (take k as) \<and> rx_matches t (drop k as))"
    (is "?L \<longleftrightarrow> ?A \<or> ?B")
  proof
    assume ?L
    then obtain k where k: "k \<le> length (a # as)" "rx_matches r (take k (a # as))"
      "rx_matches t (drop k (a # as))" by blast
    show "?A \<or> ?B"
    proof (cases k)
      case 0
      with k show ?thesis by simp
    next
      case (Suc j)
      with k show ?thesis by auto
    qed
  next
    assume "?A \<or> ?B"
    then show ?L
    proof
      assume ?A
      then have "rx_matches r (take 0 (a # as)) \<and> rx_matches t (drop 0 (a # as))" by simp
      then show ?L by blast
    next
      assume ?B
      then obtain j where "j \<le> length as" "rx_matches (deriv a r) (take j as)"
        "rx_matches t (drop j as)" by blast
      then have "Suc j \<le> length (a # as) \<and> rx_matches r (take (Suc j) (a # as)) \<and>
        rx_matches t (drop (Suc j) (a # as))" by simp
      then show ?L by blast
    qed
  qed
  show ?case
    unfolding split using Cons.IH by (auto simp: rx_Alt)
qed

lemma rx_Seq_Zero: "rx_matches (Seq Zero r) s = False"
  by (simp add: rx_Seq [of Zero] rx_Zero)

lemma rx_Seq_Eps: "rx_matches (Seq Eps r) s = rx_matches r s"
proof -
  have "(\<exists>k\<le>length s. take k s = [] \<and> rx_matches r (drop k s)) = rx_matches r s"
    by (rule iffI) (auto intro: exI [of _ 0])
  then show ?thesis by (simp add: rx_Seq [of Eps] rx_Eps)
qed

lemma rx_Star_NotChr: "rx_matches (Star (NotChr c)) s \<longleftrightarrow> c \<notin> set s"
proof (induction s)
  case Nil
  show ?case by simp
next
  case (Cons a as)
  show ?case using Cons.IH by (auto simp: rx_Seq_Zero rx_Seq_Eps)
qed

lemma rx_Star_AnyChr: "rx_matches (Star AnyChr) s"
proof (induction s)
  case Nil
  show ?case by simp
next
  case (Cons a as)
  with Cons.IH show ?case by (simp add: rx_Seq_Eps)
qed

lemma identGroup_matches:
  "rx_matches identGroup s \<longleftrightarrow> s \<noteq> [] \<and> CHR ''('' \<notin> set s"
proof (cases s)
  case Nil
  then show ?thesis by (simp add: identGroup_def)
next
  case (Cons a as)
  then show ?thesis
    by (auto simp: identGroup_def rx_Star_NotChr rx_Seq_Zero rx_Seq_Eps)
qed

lemma paramsGroup_matches:
  "rx_matches paramsGroup s \<longleftrightarrow>
     s = [] \<or> (2 \<le> length s \<and> hd s = CHR ''('' \<and> last s = CHR '')'')"
proof (cases s)
  case Nil
  then show ?thesis by (simp add: paramsGroup_def)
next
  case (Cons a as)
  let ?tail = "Seq (Star AnyChr) (Chr CHR '')'')"
  have tail: "rx_matches ?tail as \<longleftrightarrow> as \<noteq> [] \<and> last as = CHR '')''"
  proof
    assume "rx_matches ?tail as"
    then obtain k where "k \<le> length as" "drop k as = [CHR '')'']"
      by (auto simp: rx_Seq rx_Chr)
    then have "as = take k as @ [CHR '')'']" by (metis append_take_drop_id)
    then show "as \<noteq> [] \<and> last as = CHR '')''"
      by (metis last_snoc snoc_eq_iff_butlast)
  next
    assume a: "as \<noteq> [] \<and> last as = CHR '')''"
    then have "drop (length as - 1) as = [CHR '')'']"
      by (metis append_butlast_last_id append_eq_conv_conj length_butlast)
    then have "length as - 1 \<le> length as \<and> rx_matches (Star AnyChr) (take (length as - 1) as) \<and>
       rx_matches (Chr CHR '')'') (drop (length as - 1) as)"
      by (simp add: rx_Star_AnyChr rx_Chr)
    then show "rx_matches ?tail as" unfolding rx_Seq by blast
  qed
  have "rx_matches paramsGroup (a # as) \<longleftrightarrow> a = CHR ''('' \<and> rx_matches ?tail as"
    by (simp add: paramsGroup_def rx_Alt rx_Zero rx_Seq_Zero rx_Seq_Eps)
  with Cons tail show ?thesis by (cases as) auto
qed

lemma find_unique:
  "k0 \<in> set xs \<Longrightarrow> (\<And>x. x \<in> set xs \<Longrightarrow> P x \<longleftrightarrow> x = k0) \<Longrightarrow> find P xs = Some k0"
  by (induction xs) auto

lemma cut_unique:
  fixes s :: string
  defines "ident \<equiv> takeWhile (\<lambda>c. c \<noteq> CHR ''('') s"
    and "rest \<equiv> dropWhile (\<lambda>c. c \<noteq> CHR ''('') s"
  assumes k: "k \<le> length s"
  shows "rx_matches identGroup (take k s) \<and> rx_matches paramsGroup (drop k s) \<longleftrightarrow>
         k = length ident \<and> ident \<noteq> [] \<and> (rest = [] \<or> last rest = CHR '')'')"
    (is "?L \<longleftrightarrow> ?R")
proof
  assume l: ?L
  then have no: "CHR ''('' \<notin> set (take k s)" and ne: "take k s \<noteq> []"
    and tl: "drop k s = [] \<or> (2 \<le> length (drop k s) \<and> hd (drop k s) = CHR ''('' \<and>
          last (drop k s) = CHR '')'')"
    by (simp_all add: identGroup_matches paramsGroup_matches)
  have "takeWhile (\<lambda>c. c \<noteq> CHR ''('') (drop k s) = []"
    using tl by (cases "drop k s") auto
  moreover have "takeWhile (\<lambda>c. c \<noteq> CHR ''('') (take k s @ drop k s)
      = take k s @ takeWhile (\<lambda>c. c \<noteq> CHR ''('') (drop k s)"
    using no by (intro takeWhile_append2) auto
  ultimately have id: "ident = take k s" by (simp add: ident_def)
  then have len: "length ident = k" using k by simp
  have "ident @ rest = s" by (simp add: ident_def rest_def)
  then have "rest = drop k s" using len by (metis append_eq_conv_conj)
  with tl id ne len show ?R by auto
next
  assume r: ?R
  then have id: "take k s = ident" and rs: "drop k s = rest"
    by (simp_all add: ident_def rest_def takeWhile_eq_take [symmetric] dropWhile_eq_drop [symmetric])
  have no: "CHR ''('' \<notin> set ident"
    unfolding ident_def by (auto dest: set_takeWhileD)
  have "rest \<noteq> [] \<Longrightarrow> hd rest = CHR ''(''"
    unfolding rest_def using hd_dropWhile [of "\<lambda>c. c \<noteq> CHR ''(''" s] by simp
  with r have "rest = [] \<or> (2 \<le> length rest \<and> hd rest = CHR ''('' \<and> last rest = CHR '')'')"
    by (cases rest; cases "tl rest") auto
  with r no show ?L unfolding identGroup_matches paramsGroup_matches id rs by blast
qed

lemma matchMethodName_eq:
  "matchMethodName s =
     (let ident = takeWhile (\<lambda>c. c \<noteq> CHR ''('') s; rest = dropWhile (\<lambda>c. c \<noteq> CHR ''('') s
      in if ident \<noteq> [] \<and> (rest = [] \<or> last rest = CHR '')'') then Some ident else None)"
proof -
  define ident where "ident = takeWhile (\<lambda>c. c \<noteq> CHR ''('') s"
  define rest where "rest = dropWhile (\<lambda>c. c \<noteq> CHR ''('') s"
  define Q where "Q = (\<lambda>k. rx_matches identGroup (take k s) \<and> rx_matches paramsGroup (drop k s))"
  have Q: "\<And>k. k \<in> set (rev [0..<Suc (length s)]) \<Longrightarrow>
      Q k \<longleftrightarrow> k = length ident \<and> ident \<noteq> [] \<and> (rest = [] \<or> last rest = CHR '')'')"
    unfolding Q_def ident_def rest_def by (rule cut_unique) auto
  have mem: "length ident \<in> set (rev [0..<Suc (length s)])"
  proof -
    have "length ident \<le> length s" by (simp add: ident_def length_takeWhile_le)
    then have "length ident \<in> {0..<Suc (length s)}" by (simp add: less_Suc_eq_le)
    then show ?thesis by (simp only: set_rev set_upt)
  qed
  have tk: "take (length ident) s = ident"
    by (simp add: ident_def takeWhile_eq_take [symmetric])
  have lhs: "matchMethodName s = map_option (\<lambda>k. take k s) (find Q (rev [0..<Suc (length s)]))"
    by (simp only: matchMethodName_def Q_def)
  have rhs: "(let ident = takeWhile (\<lambda>c. c \<noteq> CHR ''('') s; rest = dropWhile (\<lambda>c. c \<noteq> CHR ''('') s
      in if ident \<noteq> [] \<and> (rest = [] \<or> last rest = CHR '')'') then Some ident else None)
    = (if ident \<noteq> [] \<and> (rest = [] \<or> last rest = CHR '')'') then Some ident else None)"
    by (simp only: Let_def ident_def rest_def)
  show ?thesis
  proof (cases "ident \<noteq> [] \<and> (rest = [] \<or> last rest = CHR '')'')")
    case True
    with Q have "\<And>k. k \<in> set (rev [0..<Suc (length s)]) \<Longrightarrow> Q k \<longleftrightarrow> k = length ident"
      by blast
    with mem have found: "find Q (rev [0..<Suc (length s)]) = Some (length ident)"
      by (rule find_unique)
    show ?thesis unfolding lhs rhs found using True by (simp add: tk)
  next
    case False
    with Q have "\<not> (\<exists>k. k \<in> set (rev [0..<Suc (length s)]) \<and> Q k)" by blast
    then have found: "find Q (rev [0..<Suc (length s)]) = None"
      unfolding find_None_iff by blast
    show ?thesis unfolding lhs rhs found using False by simp
  qed
qed

lemma indexOf_Some_decomp:
  "indexOf s sep = Some i \<Longrightarrow> s = take i s @ sep @ drop (i + length sep) s"
proof (induction s arbitrary: i)
  case Nil
  then show ?case by (simp split: if_splits)
next
  case (Cons c cs)
  show ?case
  proof (cases "prefix sep (c # cs)")
    case True
    then obtain zs where zs: "c # cs = sep @ zs" by (auto elim: prefixE)
    from True Cons.prems have "i = 0" by simp
    with zs show ?thesis by simp
  next
    case False
    with Cons.prems obtain j where j: "indexOf cs sep = Some j" "i = Suc j" by auto
    with Cons.IH [OF j(1)] show ?thesis by simp
  qed
qed

lemma indexOf_None_no_occurrence:
  "indexOf s sep = None \<longleftrightarrow> \<not> (\<exists>pre post. s = pre @ sep @ post)"
proof (induction s)
  case Nil
  show ?case by auto
next
  case (Cons c cs)
  show ?case
  proof (cases "prefix sep (c # cs)")
    case True
    then obtain zs where "c # cs = [] @ sep @ zs" by (auto elim: prefixE)
    with True show ?thesis by (metis indexOf.simps(2) option.distinct(1))
  next
    case False
    have "(\<exists>pre post. c # cs = pre @ sep @ post) \<longleftrightarrow> (\<exists>pre post. cs = pre @ sep @ post)"
    proof
      assume "\<exists>pre post. c # cs = pre @ sep @ post"
      then obtain pre post where e: "c # cs = pre @ sep @ post" by blast
      show "\<exists>pre post. cs = pre @ sep @ post"
      proof (cases pre)
        case Nil
        with e False show ?thesis by (auto simp: prefix_def)
      next
        case (Cons a pre')
        with e have "cs = pre' @ sep @ post" by simp
        then show ?thesis by blast
      qed
    next
      assume "\<exists>pre post. cs = pre @ sep @ post"
      then obtain pre post where "cs = pre @ sep @ post" by blast
      then have "c # cs = (c # pre) @ sep @ post" by simp
      then show "\<exists>pre post. c # cs = pre @ sep @ post" by blast
    qed
    with False Cons.IH show ?thesis by simp
  qed
qed

lemma indexOf_take_None:
  assumes "indexOf s sep = Some i" "sep \<noteq> []"
  shows "indexOf (take i s) sep = None"
  using assms
proof (induction s arbitrary: i)
  case Nil
  then show ?case by simp
next
  case (Cons c cs)
  show ?case
  proof (cases "prefix sep (c # cs)")
    case True
    with Cons.prems show ?thesis by simp
  next
    case False
    with Cons.prems obtain j where j: "indexOf cs sep = Some j" "i = Suc j" by auto
    have "\<not> prefix sep (c # take j cs)"
    proof
      assume "prefix sep (c # take j cs)"
      moreover have "prefix (c # take j cs) (c # cs)" by (simp add: take_is_prefix)
      ultimately have "prefix sep (c # cs)" by (rule prefix_order.trans)
      with False show False by simp
    qed
    with j Cons.IH [OF j(1) Cons.prems(2)] show ?thesis by simp
  qed
qed

lemma qsplit_final_segments:
  assumes "sep \<noteq> []" "indexOf s sep \<noteq> None"
  shows "2 \<le> length (qsplit sep s) \<and>
         indexOf (last (qsplit sep s)) sep = None \<and>
         indexOf (last (butlast (qsplit sep s))) sep = None \<and>
         (\<exists>pre. s = pre @ sep @ last (qsplit sep s) \<and>
            (pre = last (butlast (qsplit sep s)) \<or>
             (\<exists>pp. pre = pp @ sep @ last (butlast (qsplit sep s)))))"
  using assms
proof (induction sep s rule: qsplit.induct)
  case (1 sep s)
  from "1.prems" obtain i where i: "indexOf s sep = Some i" by auto
  define rest where "rest = drop (i + length sep) s"
  have s: "s = take i s @ sep @ rest"
    unfolding rest_def using i by (rule indexOf_Some_decomp)
  have hd_none: "indexOf (take i s) sep = None"
    using i "1.prems"(1) by (rule indexOf_take_None)
  have parts: "qsplit sep s = take i s # qsplit sep rest"
    using i "1.prems"(1) by (simp add: qsplit.simps [of sep s] rest_def)
  show ?case
  proof (cases "indexOf rest sep")
    case None
    then have "qsplit sep rest = [rest]"
      using "1.prems"(1) by (simp add: qsplit.simps [of sep rest])
    with parts None hd_none s show ?thesis by auto
  next
    case (Some j)
    then have "indexOf rest sep \<noteq> None" by simp
    from "1.IH" [OF "1.prems"(1) i "1.prems"(1), folded rest_def, OF this]
    obtain pre where ih: "2 \<le> length (qsplit sep rest)"
      "indexOf (last (qsplit sep rest)) sep = None"
      "indexOf (last (butlast (qsplit sep rest))) sep = None"
      "rest = pre @ sep @ last (qsplit sep rest)"
      "pre = last (butlast (qsplit sep rest)) \<or>
         (\<exists>pp. pre = pp @ sep @ last (butlast (qsplit sep rest)))"
      by blast
    from ih(1) have ne: "qsplit sep rest \<noteq> []" "butlast (qsplit sep rest) \<noteq> []"
      by (cases "qsplit sep rest"; auto split: if_splits)+
    have l: "last (qsplit sep s) = last (qsplit sep rest)"
      and b: "last (butlast (qsplit sep s)) = last (butlast (qsplit sep rest))"
      using ne by (simp_all add: parts)
    have "s = (take i s @ sep @ pre) @ sep @ last (qsplit sep s)"
      using s ih(4) l by simp
    moreover have "take i s @ sep @ pre = last (butlast (qsplit sep s)) \<or>
        (\<exists>pp. take i s @ sep @ pre = pp @ sep @ last (butlast (qsplit sep s)))"
      using ih(5) b by (metis append.assoc)
    ultimately show ?thesis using ih(1,2,3) l b parts by (metis One_nat_def Suc_1 Suc_leD length_Cons not_less_eq_eq)
  qed
qed

lemma indexOf_append_Some:
  "indexOf u sep = Some i \<Longrightarrow> indexOf (u @ v) sep = Some i"
proof (induction u arbitrary: i)
  case Nil
  then show ?case by (cases v) (auto split: if_splits)
next
  case (Cons c cs)
  show ?case
  proof (cases "prefix sep (c # cs)")
    case True
    then have "prefix sep ((c # cs) @ v)" by (rule prefix_prefix)
    with True Cons.prems show ?thesis by simp
  next
    case False
    with Cons.prems obtain j where j: "indexOf cs sep = Some j" "i = Suc j" by auto
    from j(1) have b: "j + length sep \<le> length cs" by (rule indexOf_Some_bound)
    have "\<not> prefix sep (c # cs @ v)"
    proof
      assume p: "prefix sep (c # cs @ v)"
      from b have "length sep \<le> length (c # cs)" by simp
      with p have "prefix sep (c # cs)"
        by (metis append_Cons prefix_length_prefix prefixI)
      with False show False by simp
    qed
    with j Cons.IH [OF j(1)] show ?thesis by simp
  qed
qed

lemma indexOf_seg:
  assumes "indexOf s sep = Some i"
  shows "indexOf (take i s @ sep) sep = Some i"
  using assms
proof (induction s arbitrary: i)
  case Nil
  then show ?case by (simp split: if_splits)
next
  case (Cons c cs)
  show ?case
  proof (cases "prefix sep (c # cs)")
    case True
    with Cons.prems have "i = 0" by simp
    then show ?thesis by (cases sep) simp_all
  next
    case False
    with Cons.prems obtain j where j: "indexOf cs sep = Some j" "i = Suc j" by auto
    from j(1) have dec: "cs = take j cs @ sep @ drop (j + length sep) cs"
      by (rule indexOf_Some_decomp)
    have "\<not> prefix sep (c # take j cs @ sep)"
    proof
      assume p: "prefix sep (c # take j cs @ sep)"
      have "prefix (c # take j cs @ sep) (c # cs)"
        using dec by (metis Cons_prefix_Cons append.assoc prefixI)
      with p have "prefix sep (c # cs)" by (rule prefix_order.trans)
      with False show False by simp
    qed
    with j Cons.IH [OF j(1)] show ?thesis by simp
  qed
qed

lemma qsplit_splitsInto:
  assumes "sep \<noteq> []"
  shows "splitsInto sep d (qsplit sep d)"
  using assms
proof (induction sep d rule: qsplit.induct)
  case (1 sep s)
  show ?case
  proof (cases "indexOf s sep")
    case None
    with "1.prems" have "qsplit sep s = [s]" by (simp add: qsplit.simps [of sep s])
    with None show ?thesis by (simp add: splitsInto_def)
  next
    case (Some i)
    define rest where "rest = drop (i + length sep) s"
    have parts: "qsplit sep s = take i s # qsplit sep rest"
      using Some "1.prems" by (simp add: qsplit.simps [of sep s] rest_def)
    have s: "s = take i s @ sep @ rest"
      unfolding rest_def using Some by (rule indexOf_Some_decomp)
    from "1.IH" [OF "1.prems" Some "1.prems", folded rest_def]
    have ih: "splitsInto sep rest (qsplit sep rest)" .
    then have ne: "qsplit sep rest \<noteq> []" by (simp add: splitsInto_def)
    have seg: "indexOf (take i s @ sep) sep = Some (length (take i s))"
    proof -
      from Some have "i + length sep \<le> length s" by (rule indexOf_Some_bound)
      then have "length (take i s) = i" by simp
      with indexOf_seg [OF Some] show ?thesis by simp
    qed
    from ih have r: "rest = concat (map (\<lambda>s. s @ sep) (butlast (qsplit sep rest))) @ last (qsplit sep rest)"
      and a: "\<forall>x \<in> set (butlast (qsplit sep rest)). indexOf (x @ sep) sep = Some (length x)"
      and l: "indexOf (last (qsplit sep rest)) sep = None"
      by (simp_all add: splitsInto_def)
    have "s = concat (map (\<lambda>s. s @ sep) (butlast (qsplit sep s))) @ last (qsplit sep s)"
      using s r ne by (simp add: parts)
    moreover have "\<forall>x \<in> set (butlast (qsplit sep s)). indexOf (x @ sep) sep = Some (length x)"
      using a seg ne by (simp add: parts)
    moreover have "indexOf (last (qsplit sep s)) sep = None"
      using l ne by (simp add: parts)
    ultimately show ?thesis by (simp add: splitsInto_def parts)
  qed
qed

lemma splitsInto_unique:
  assumes "sep \<noteq> []" "splitsInto sep d segs"
  shows "segs = qsplit sep d"
  using assms(2)
proof (induction segs arbitrary: d)
  case Nil
  then show ?case by (simp add: splitsInto_def)
next
  case (Cons x rest)
  show ?case
  proof (cases "rest = []")
    case True
    with Cons.prems have "d = x" "indexOf d sep = None" by (simp_all add: splitsInto_def)
    with assms(1) True show ?thesis by (simp add: qsplit.simps [of sep x])
  next
    case False
    define d2 where "d2 = concat (map (\<lambda>s. s @ sep) (butlast rest)) @ last rest"
    from Cons.prems False have d: "d = x @ sep @ d2"
      and x: "indexOf (x @ sep) sep = Some (length x)"
      and r: "splitsInto sep d2 rest"
      by (simp_all add: splitsInto_def d2_def)
    from x have "indexOf ((x @ sep) @ d2) sep = Some (length x)" by (rule indexOf_append_Some)
    then have i: "indexOf d sep = Some (length x)" by (simp add: d)
    have "qsplit sep d = take (length x) d # qsplit sep (drop (length x + length sep) d)"
      using i assms(1) by (simp add: qsplit.simps [of sep d])
    also have "take (length x) d = x" by (simp add: d)
    also have "drop (length x + length sep) d = d2" by (simp add: d)
    also have "qsplit sep d2 = rest" using Cons.IH [OF r] by simp
    finally show ?thesis by simp
  qed
qed

lemma qsplit_final_two:
  assumes "sep \<noteq> []" "indexOf d sep \<noteq> None"
  shows "qsplit sep d =
     butlast (butlast (qsplit sep d)) @ [last (butlast (qsplit sep d)), last (qsplit sep d)]"
proof -
  from qsplit_final_segments [OF assms] have "2 \<le> length (qsplit sep d)" by blast
  then have ne: "qsplit sep d \<noteq> []" "butlast (qsplit sep d) \<noteq> []"
    by (cases "qsplit sep d"; auto split: if_splits)+
  then show ?thesis by (metis append_butlast_last_id append_Cons append_Nil append.assoc)
qed

lemma splitsInto_suffix: "splitsInto sep d segs \<Longrightarrow> suffix (last segs) d"
  by (auto simp: splitsInto_def suffix_def)

section \<open>Properties of the normalisation\<close>

lemma indexOf_empty_sep: "indexOf s [] = Some 0"
  by (cases s) simp_all

lemma nth_final_two:
  assumes "2 \<le> length xs"
  shows "xs ! (length xs - 1) = last xs" and "xs ! (length xs - 2) = last (butlast xs)"
proof -
  from assms have ne: "xs \<noteq> []" "butlast xs \<noteq> []"
    by (cases xs; auto split: if_splits)+
  show "xs ! (length xs - 1) = last xs" using ne by (simp add: last_conv_nth)
  have "last (butlast xs) = butlast xs ! (length (butlast xs) - 1)"
    using ne by (simp add: last_conv_nth)
  also have "\<dots> = xs ! (length xs - 2)"
    using assms by (simp add: nth_butlast numeral_2_eq_2)
  finally show "xs ! (length xs - 2) = last (butlast xs)" by simp
qed

lemma normalizeStep_unchanged:
  "indexOf d sep = None \<or> indexOf d sep = Some 0 \<or> h \<noteq> None \<Longrightarrow> normalizeStep h (d, p) sep = (d, p)"
  by (auto simp: normalizeStep_def)

lemma normalizeStep_last:
  assumes "indexOf d sep = Some i" "i \<noteq> 0"
  shows "normalizeStep None (d, p) sep = (last (qsplit sep d), Some (last (butlast (qsplit sep d))))"
proof -
  from assms have sep: "sep \<noteq> []" by (auto simp: indexOf_empty_sep)
  from assms have occ: "indexOf d sep \<noteq> None" by simp
  from qsplit_final_segments [OF sep occ] have len: "2 \<le> length (qsplit sep d)" by blast
  show ?thesis
    using assms nth_final_two [OF len] by (simp add: normalizeStep_def Let_def)
qed

lemma normalizeStep_split:
  assumes "indexOf d sep = Some i" "i \<noteq> 0"
  shows "\<exists>segs par d'.
            splitsInto sep d (segs @ [par, d']) \<and>
            (\<forall>ss. splitsInto sep d ss \<longrightarrow> ss = segs @ [par, d']) \<and>
            normalizeStep None (d, p) sep = (d', Some par)"
proof -
  from assms have sep: "sep \<noteq> []" by (auto simp: indexOf_empty_sep)
  from assms have occ: "indexOf d sep \<noteq> None" by simp
  define segs where "segs = butlast (butlast (qsplit sep d))"
  define par where "par = last (butlast (qsplit sep d))"
  define d' where "d' = last (qsplit sep d)"
  have q: "qsplit sep d = segs @ [par, d']"
    unfolding segs_def par_def d'_def using sep occ by (rule qsplit_final_two)
  have a: "splitsInto sep d (segs @ [par, d'])"
    using qsplit_splitsInto [OF sep, of d] by (simp only: q)
  have b: "\<forall>ss. splitsInto sep d ss \<longrightarrow> ss = segs @ [par, d']"
    using splitsInto_unique [OF sep, of d] by (simp only: q) blast
  have c: "normalizeStep None (d, p) sep = (d', Some par)"
    unfolding d'_def par_def using assms by (rule normalizeStep_last)
  from a b c show ?thesis by blast
qed

lemma normalizeStep_suffix: "suffix (fst (normalizeStep h st sep)) (fst st)"
proof (cases st)
  case (Pair d p)
  show ?thesis
  proof (cases "indexOf d sep = None \<or> indexOf d sep = Some 0 \<or> h \<noteq> None")
    case True
    then show ?thesis by (simp add: Pair normalizeStep_unchanged)
  next
    case False
    then obtain i where i: "indexOf d sep = Some i" "i \<noteq> 0" and h: "h = None" by auto
    from i have sep: "sep \<noteq> []" by (auto simp: indexOf_empty_sep)
    have "fst (normalizeStep None (d, p) sep) = last (qsplit sep d)"
      using normalizeStep_last [OF i, of p] by simp
    moreover have "suffix (last (qsplit sep d)) d"
      using qsplit_splitsInto [OF sep] by (rule splitsInto_suffix)
    ultimately show ?thesis by (simp add: Pair h)
  qed
qed

lemma normalizeSteps_suffix: "suffix (fst (foldl (normalizeStep h) st seps)) (fst st)"
proof (induction seps arbitrary: st)
  case Nil
  show ?case by simp
next
  case (Cons sep seps)
  have "suffix (fst (foldl (normalizeStep h) (normalizeStep h st sep) seps))
          (fst (normalizeStep h st sep))" by (rule Cons.IH)
  also have "suffix (fst (normalizeStep h st sep)) (fst st)" by (rule normalizeStep_suffix)
  finally show ?case by simp
qed

lemma normalizeName_suffix: "suffix (fst (normalizeName n p h)) (stripParams n)"
  unfolding normalizeName_def using normalizeSteps_suffix [of h "(stripParams n, p)"] by simp

lemma hasTrailingParenGroup_suffix:
  assumes "suffix d' d" "\<not> hasTrailingParenGroup d"
  shows "\<not> hasTrailingParenGroup d'"
proof
  assume t: "hasTrailingParenGroup d'"
  from assms(1) obtain pre where d: "d = pre @ d'" by (auto simp: suffix_def)
  from t have "d' \<noteq> []" "last d' = CHR '')''" "CHR ''('' \<in> set d'"
    by (simp_all add: hasTrailingParenGroup_def)
  then have "hasTrailingParenGroup d" by (simp add: d hasTrailingParenGroup_def)
  with assms(2) show False by simp
qed

lemma stripParams_group:
  assumes "\<not> prefix ''('' n" "hasTrailingParenGroup n"
  shows "stripParams n = takeWhile (\<lambda>c. c \<noteq> CHR ''('') n"
proof -
  define ident where "ident = takeWhile (\<lambda>c. c \<noteq> CHR ''('') n"
  define rest where "rest = dropWhile (\<lambda>c. c \<noteq> CHR ''('') n"
  from assms(2) have n: "n \<noteq> []" "last n = CHR '')''" "CHR ''('' \<in> set n"
    by (simp_all add: hasTrailingParenGroup_def)
  from n(1) assms(1) have "hd n \<noteq> CHR ''(''" by (cases n) auto
  with n(1) have id: "ident \<noteq> []" unfolding ident_def by (cases n) auto
  from n(3) have r: "rest \<noteq> []" unfolding rest_def by (simp add: dropWhile_eq_Nil_conv)
  have "n = ident @ rest" by (simp add: ident_def rest_def)
  with r n(2) have "last rest = CHR '')''" by (metis last_appendR)
  with id show ?thesis
    by (simp add: stripParams_def matchMethodName_eq Let_def ident_def rest_def)
qed

lemma stripParams_no_group:
  assumes "\<not> prefix ''('' n"
  shows "\<not> hasTrailingParenGroup (stripParams n)"
proof (cases "hasTrailingParenGroup n")
  case True
  with assms have "stripParams n = takeWhile (\<lambda>c. c \<noteq> CHR ''('') n" by (rule stripParams_group)
  moreover have "CHR ''('' \<notin> set (takeWhile (\<lambda>c. c \<noteq> CHR ''('') n)"
    by (auto dest: set_takeWhileD)
  ultimately show ?thesis by (simp add: hasTrailingParenGroup_def)
next
  case False
  show ?thesis
  proof (cases "matchMethodName n")
    case None
    with False show ?thesis by (simp add: stripParams_def)
  next
    case (Some c)
    then have "c = takeWhile (\<lambda>c. c \<noteq> CHR ''('') n"
      by (simp add: matchMethodName_eq Let_def split: if_splits)
    then have "CHR ''('' \<notin> set c" by (auto dest: set_takeWhileD)
    with Some show ?thesis by (simp add: stripParams_def hasTrailingParenGroup_def)
  qed
qed

lemma stripParams_eq:
  "stripParams n =
     (if \<not> prefix ''('' n \<and> hasTrailingParenGroup n then takeWhile (\<lambda>c. c \<noteq> CHR ''('') n else n)"
proof (cases "\<not> prefix ''('' n \<and> hasTrailingParenGroup n")
  case True
  then show ?thesis by (simp add: stripParams_group)
next
  case False
  define ident where "ident = takeWhile (\<lambda>c. c \<noteq> CHR ''('') n"
  define rest where "rest = dropWhile (\<lambda>c. c \<noteq> CHR ''('') n"
  have n: "n = ident @ rest" by (simp add: ident_def rest_def)
  have m: "matchMethodName n =
      (if ident \<noteq> [] \<and> (rest = [] \<or> last rest = CHR '')'') then Some ident else None)"
    by (simp only: matchMethodName_eq Let_def ident_def rest_def)
  have "stripParams n = n"
  proof (cases "matchMethodName n")
    case None
    then show ?thesis by (simp add: stripParams_def)
  next
    case (Some c)
    with m have c: "c = ident" "ident \<noteq> []" "rest = [] \<or> last rest = CHR '')''"
      by (simp_all split: if_splits)
    from c(2) have np: "\<not> prefix ''('' n"
      unfolding ident_def by (cases n) auto
    have "rest = []"
    proof (rule ccontr)
      assume r: "rest \<noteq> []"
      with c(3) n have "last n = CHR '')''" by (metis last_appendR)
      moreover from r have "CHR ''('' \<in> set n"
        unfolding rest_def by (auto simp: dropWhile_eq_Nil_conv)
      moreover from r n have "n \<noteq> []" by auto
      ultimately have "hasTrailingParenGroup n" by (simp add: hasTrailingParenGroup_def)
      with np False show False by simp
    qed
    with n c(1) have "c = n" by simp
    with Some show ?thesis by (simp add: stripParams_def)
  qed
  with False show ?thesis by (simp only: if_not_P if_False)
qed

text \<open>
  C5, as amended. Whatever the parent hint: the pattern strips a name exactly when the
  name does not begin with an opening parenthesis, contains one and ends with a closing
  one, and it then removes everything from the first opening parenthesis of the name to
  its end (one group, or several as in \<open>f(a)(b)\<close>); every other name is left as it is,
  in particular every name that begins with an opening parenthesis. For a name that does
  not begin with an opening parenthesis the display name never has a trailing
  parenthesised group, and when the raw name has one, the display name is a final part of
  the text before the first opening parenthesis and contains no opening parenthesis.
\<close>

theorem normalizeName_strips_parameter_list:
  "stripParams n =
     (if \<not> prefix ''('' n \<and> hasTrailingParenGroup n then takeWhile (\<lambda>c. c \<noteq> CHR ''('') n else n)
   \<and> (prefix ''('' n \<longrightarrow> stripParams n = n)
   \<and> (\<not> prefix ''('' n \<longrightarrow>
        \<not> hasTrailingParenGroup (fst (normalizeName n p h)) \<and>
        (hasTrailingParenGroup n \<longrightarrow>
           suffix (fst (normalizeName n p h)) (takeWhile (\<lambda>c. c \<noteq> CHR ''('') n) \<and>
           CHR ''('' \<notin> set (fst (normalizeName n p h))))"
proof -
  have e: "stripParams n =
     (if \<not> prefix ''('' n \<and> hasTrailingParenGroup n then takeWhile (\<lambda>c. c \<noteq> CHR ''('') n else n)"
    by (rule stripParams_eq)
  then have u: "stripParams n = n" if "prefix ''('' n" using that by simp
  have a: "\<not> hasTrailingParenGroup (fst (normalizeName n p h))" if np: "\<not> prefix ''('' n"
    using normalizeName_suffix stripParams_no_group [OF np]
    by (rule hasTrailingParenGroup_suffix)
  have b: "suffix (fst (normalizeName n p h)) (takeWhile (\<lambda>c. c \<noteq> CHR ''('') n)
      \<and> CHR ''('' \<notin> set (fst (normalizeName n p h))"
    if np: "\<not> prefix ''('' n" and t: "hasTrailingParenGroup n"
  proof -
    have s: "stripParams n = takeWhile (\<lambda>c. c \<noteq> CHR ''('') n"
      using np t by (rule stripParams_group)
    have sf: "suffix (fst (normalizeName n p h)) (takeWhile (\<lambda>c. c \<noteq> CHR ''('') n)"
      using normalizeName_suffix [of n p h] by (simp only: s)
    have "CHR ''('' \<notin> set (takeWhile (\<lambda>c. c \<noteq> CHR ''('') n)"
      by (auto dest: set_takeWhileD)
    with sf have "CHR ''('' \<notin> set (fst (normalizeName n p h))"
      by (auto simp: suffix_def)
    with sf show ?thesis by blast
  qed
  from e u a b show ?thesis by blast
qed

lemma eval_read: "normalizeName ''Read(Stream, int)'' None None = (''Read'', None)"
  by code_simp

text \<open>C5, as amended, on its example, \<open>Read(Stream, int)\<close> with no parent hint, and on
  \<open>(foo)\<close>, which begins with an opening parenthesis.\<close>

theorem normalizeName_strips_parameter_list_witness:
  "\<not> prefix ''('' ''Read(Stream, int)'' \<and> hasTrailingParenGroup ''Read(Stream, int)'' \<and>
   \<not> hasTrailingParenGroup (fst (normalizeName ''Read(Stream, int)'' None None)) \<and>
   stripParams ''Read(Stream, int)'' = ''Read'' \<and>
   normalizeName ''Read(Stream, int)'' None None = (''Read'', None) \<and>
   prefix ''('' ''(foo)'' \<and> stripParams ''(foo)'' = ''(foo)''"
proof -
  have h: "\<not> prefix ''('' ''Read(Stream, int)''" by simp
  have t: "hasTrailingParenGroup ''Read(Stream, int)''" by (simp add: hasTrailingParenGroup_def)
  have f: "prefix ''('' ''(foo)''" by simp
  have k: "takeWhile (\<lambda>c. c \<noteq> CHR ''('') ''Read(Stream, int)'' = ''Read''" by simp
  from normalizeName_strips_parameter_list [of "''Read(Stream, int)''" None None] h t
  have a: "\<not> hasTrailingParenGroup (fst (normalizeName ''Read(Stream, int)'' None None))"
    and "stripParams ''Read(Stream, int)'' = takeWhile (\<lambda>c. c \<noteq> CHR ''('') ''Read(Stream, int)''"
    by (simp_all only: simp_thms if_True)
  then have b: "stripParams ''Read(Stream, int)'' = ''Read''" by (simp only: k)
  from normalizeName_strips_parameter_list [of "''(foo)''" None None] f
  have c: "stripParams ''(foo)'' = ''(foo)''" by blast
  from h t a b eval_read f c show ?thesis by blast
qed

text \<open>
  C5 as stated fails in two ways. A name that begins with an opening parenthesis is not
  stripped: the pattern asks for at least one character before the group, so \<open>(foo)\<close>
  does not match, is left as it is, and the display name keeps the parenthesised group of
  the raw name. And more than one trailing group is stripped: of \<open>f(a)(b)\<close> the claim
  removes the one group \<open>(b)\<close> and leaves \<open>f(a)\<close>, the pattern removes both and leaves
  \<open>f\<close>.
\<close>

theorem strip_counterexample:
  "hasTrailingParenGroup ''(foo)'' \<and>
   normalizeName ''(foo)'' None None = (''(foo)'', None) \<and>
   hasTrailingParenGroup (fst (normalizeName ''(foo)'' None None)) \<and>
   claimed_strip ''f(a)(b)'' = ''f(a)'' \<and>
   stripParams ''f(a)(b)'' = ''f'' \<and>
   normalizeName ''f(a)(b)'' None None = (''f'', None)"
  by code_simp

lemma normalizeName_steps:
  "normalizeName n p h =
     normalizeStep h (normalizeStep h (normalizeStep h (stripParams n, p) ''.'') ''::'') ''/''"
  by (simp add: normalizeName_def separators_def)

text \<open>
  C4, as amended. With no parent hint the separators \<open>.\<close>, \<open>::\<close>, \<open>/\<close> are tried in that
  order, each on the display name the separators before it have left, and every one of
  them (not only the first) that occurs in that name, its first occurrence not at
  position 0, splits it into segments at the occurrences of the separator found from
  left to right, each search starting behind the occurrence before it: the display name
  becomes the last segment and the parent name the segment before it, and the name has
  no other division of that kind. A separator that does not occur, or whose first
  occurrence is at position 0, changes nothing; when that holds for all three on the
  stripped name, the parent stays absent and the display name is the stripped name.
  \<open>std::vector::push_back\<close> gives \<open>push_back\<close> with parent \<open>vector\<close>.
\<close>

theorem normalizeName_splits_at_every_separator:
  "normalizeName n None None =
     normalizeStep None (normalizeStep None (normalizeStep None (stripParams n, None) ''.'') ''::'') ''/''
   \<and> (\<forall>sep d p i.
         (indexOf d sep = Some i \<and> i \<noteq> 0 \<longrightarrow>
            (\<exists>segs par d'.
                splitsInto sep d (segs @ [par, d']) \<and>
                (\<forall>ss. splitsInto sep d ss \<longrightarrow> ss = segs @ [par, d']) \<and>
                normalizeStep None (d, p) sep = (d', Some par))) \<and>
         (indexOf d sep = None \<or> indexOf d sep = Some 0 \<longrightarrow> normalizeStep None (d, p) sep = (d, p)))
   \<and> ((\<forall>sep \<in> set separators.
          indexOf (stripParams n) sep = None \<or> indexOf (stripParams n) sep = Some 0) \<longrightarrow>
        normalizeName n None None = (stripParams n, None))
   \<and> normalizeName ''std::vector::push_back'' None None = (''push_back'', Some ''vector'')"
proof -
  have a: "normalizeName n None None =
     normalizeStep None (normalizeStep None (normalizeStep None (stripParams n, None) ''.'') ''::'') ''/''"
    by (rule normalizeName_steps)
  have b: "\<exists>segs par d'.
            splitsInto sep d (segs @ [par, d']) \<and>
            (\<forall>ss. splitsInto sep d ss \<longrightarrow> ss = segs @ [par, d']) \<and>
            normalizeStep None (d, p) sep = (d', Some par)"
    if "indexOf d sep = Some i" "i \<noteq> 0" for sep d p i
    using that by (rule normalizeStep_split)
  have c: "normalizeStep None (d, p) sep = (d, p)"
    if "indexOf d sep = None \<or> indexOf d sep = Some 0" for sep d p
    using that by (simp add: normalizeStep_unchanged)
  have d: "normalizeName n None None = (stripParams n, None)"
    if "\<forall>sep \<in> set separators.
          indexOf (stripParams n) sep = None \<or> indexOf (stripParams n) sep = Some 0"
  proof -
    from that have "indexOf (stripParams n) ''.'' = None \<or> indexOf (stripParams n) ''.'' = Some 0"
      "indexOf (stripParams n) ''::'' = None \<or> indexOf (stripParams n) ''::'' = Some 0"
      "indexOf (stripParams n) ''/'' = None \<or> indexOf (stripParams n) ''/'' = Some 0"
      by (simp_all add: separators_def)
    then show ?thesis unfolding a by (simp add: c)
  qed
  have e: "normalizeName ''std::vector::push_back'' None None = (''push_back'', Some ''vector'')"
    by code_simp
  from a b c d e show ?thesis by blast
qed

lemma eval_steps:
  "indexOf ''a.b::c'' ''.'' = Some 1"
  "normalizeStep None (''a.b::c'', None) ''.'' = (''b::c'', Some ''a'')"
  "indexOf ''pkg:::fn'' ''::'' = Some 3"
  "normalizeStep None (''pkg:::fn'', None) ''::'' = ('':fn'', Some ''pkg'')"
  "stripParams ''::method'' = ''::method''"
  "indexOf ''::method'' ''.'' = None"
  "indexOf ''::method'' ''::'' = Some 0"
  "indexOf ''::method'' ''/'' = None"
  "splitsInto ''.'' ''a.b::c'' [''a'', ''b::c'']"
  "splitsInto ''::'' ''pkg:::fn'' [''pkg'', '':fn'']"
  by code_simp+

text \<open>C4, as amended, on \<open>a.b::c\<close> at the dot, on \<open>pkg:::fn\<close>, whose only division at
  \<open>::\<close> is into \<open>pkg\<close> and \<open>:fn\<close>, and on \<open>::method\<close>, which is not split.\<close>

theorem normalizeName_splits_at_every_separator_witness:
  "(\<forall>ss. splitsInto ''.'' ''a.b::c'' ss \<longleftrightarrow> ss = [''a'', ''b::c'']) \<and>
   (\<forall>ss. splitsInto ''::'' ''pkg:::fn'' ss \<longleftrightarrow> ss = [''pkg'', '':fn'']) \<and>
   normalizeStep None (''pkg:::fn'', None) ''::'' = ('':fn'', Some ''pkg'') \<and>
   normalizeStep None (''::method'', None) ''::'' = (''::method'', None) \<and>
   normalizeName ''::method'' None None = (''::method'', None)"
proof -
  note t = normalizeName_splits_at_every_separator [of "''::method''"]
  from t have s: "\<And>sep d p i. indexOf d sep = Some i \<Longrightarrow> i \<noteq> 0 \<Longrightarrow>
      \<exists>segs par d'. splitsInto sep d (segs @ [par, d']) \<and>
         (\<forall>ss. splitsInto sep d ss \<longrightarrow> ss = segs @ [par, d']) \<and>
         normalizeStep None (d, p) sep = (d', Some par)"
    by blast
  have u: "\<forall>ss. splitsInto sep d ss \<longleftrightarrow> ss = xs"
    if "indexOf d sep = Some i" "i \<noteq> 0" "splitsInto sep d xs" for sep d i xs
  proof -
    from s [OF that(1,2), of None] obtain ys
      where "\<forall>ss. splitsInto sep d ss \<longrightarrow> ss = ys" by blast
    with that(3) show ?thesis by blast
  qed
  have 1: "\<forall>ss. splitsInto ''.'' ''a.b::c'' ss \<longleftrightarrow> ss = [''a'', ''b::c'']"
    by (rule u [OF eval_steps(1) _ eval_steps(9)]) simp
  have 2: "\<forall>ss. splitsInto ''::'' ''pkg:::fn'' ss \<longleftrightarrow> ss = [''pkg'', '':fn'']"
    by (rule u [OF eval_steps(3) _ eval_steps(10)]) simp
  have "\<forall>sep \<in> set separators.
          indexOf (stripParams ''::method'') sep = None \<or> indexOf (stripParams ''::method'') sep = Some 0"
    by (simp add: separators_def eval_steps)
  with t have "normalizeName ''::method'' None None = (stripParams ''::method'', None)"
    by blast
  then have 3: "normalizeName ''::method'' None None = (''::method'', None)"
    by (simp only: eval_steps(5))
  from t eval_steps(7)
  have 4: "normalizeStep None (''::method'', None) ''::'' = (''::method'', None)"
    by blast
  from 1 2 3 4 eval_steps(4) show ?thesis by blast
qed

text \<open>
  C4 as stated fails in two ways. On \<open>a.b::c\<close> the first separator that qualifies is the
  dot, and the claim gives display name \<open>b::c\<close> with parent \<open>a\<close>; the loop goes on to
  \<open>::\<close> and leaves display name \<open>c\<close> with parent \<open>b\<close>. On \<open>pkg:::fn\<close> the last
  occurrence of \<open>::\<close> is at position 4, and the claim gives display name \<open>fn\<close> with
  parent \<open>pkg:\<close>; the split takes the occurrence at position 3, the one after it overlaps
  it, and the display name is \<open>:fn\<close> with parent \<open>pkg\<close>.
\<close>

theorem first_separator_only_counterexample:
  "normalizeName ''a.b::c'' None None = (''c'', Some ''b'') \<and>
   claimed_normalize ''a.b::c'' = (''b::c'', Some ''a'') \<and>
   normalizeName ''pkg:::fn'' None None = ('':fn'', Some ''pkg'') \<and>
   claimed_normalize ''pkg:::fn'' = (''fn'', Some ''pkg:'')"
  by code_simp

section \<open>Properties of the registry\<close>

lemma length_qmapInsert_new:
  "k \<notin> fst ` set m \<Longrightarrow> length (qmapInsert k v m) = Suc (length m)"
  by (induction m) auto

lemma map_of_qmapInsert_new:
  "k \<notin> fst ` set m \<Longrightarrow> map_of (qmapInsert k v m) k' = (if k' = k then Some v else map_of m k')"
  by (induction m) auto

lemma set_qmapInsert_new:
  "k \<notin> fst ` set m \<Longrightarrow> set (qmapInsert k v m) = insert (k, v) (set m)"
  by (induction m) (auto split: if_splits)

lemma qmapRemove_absent: "k \<notin> fst ` set (qmapRemove k m)"
  by (auto simp: qmapRemove_def)

lemma length_qmapRemove_present:
  "distinct (map fst m) \<Longrightarrow> map_of m k = Some v \<Longrightarrow> Suc (length (qmapRemove k m)) = length m"
proof (induction m)
  case Nil
  then show ?case by simp
next
  case (Cons kv m)
  show ?case
  proof (cases "fst kv = k")
    case True
    with Cons.prems have "k \<notin> fst ` set m" by auto
    then have "filter (\<lambda>kv. fst kv \<noteq> k) m = m" by (auto simp: filter_id_conv)
    with True show ?thesis by (simp add: qmapRemove_def)
  next
    case False
    with Cons.prems have "map_of m k = Some v" "distinct (map fst m)" by (auto split: if_splits)
    with Cons.IH False show ?thesis by (simp add: qmapRemove_def)
  qed
qed

lemma qmapSubscript_present:
  "map_of m k = Some v \<Longrightarrow> qmapSubscript k dflt m = (v, m)"
  by (simp add: qmapSubscript_def)

lemma remove_present:
  assumes "map_of (m_docs st) name = Some old"
  shows "remove E name st =
     st\<lparr>closedDbs := closeDb (db old) (closedDbs st), m_docs := qmapRemove name (m_docs st)\<rparr>"
  using assms by (simp add: remove_def qmapSubscript_present)

lemma dbExec_closed: "dbExec E (closeDb (db d) closed) d q = []"
  by (cases "db d") (simp_all add: dbExec_def)

text \<open>
  C7. \<^verbatim>\<open>addDocset\<close> with a valid docset whose name the registry holds (its keys
  being distinct, as the keys of a \<^verbatim>\<open>QMap\<close> are): the call is the removal of the prior
  entry, which closes the database of that entry, followed by the insertion of the new
  docset. Afterwards \<open>count\<close> is what it was, the name leads to the new docset, the
  registry holds the new docset and the entries of the other names only, and the prior
  entry's database runs no statement any more.
\<close>

theorem addDocset_replaces_entry:
  assumes valid: "isValid (loadDocset E path)"
    and old: "map_of (m_docs st) (dname (loadDocset E path)) = Some old"
    and keys: "distinct (map fst (m_docs st))"
  shows "contains (dname (loadDocset E path)) st \<and>
         addDocset E path st =
           (remove E (dname (loadDocset E path)) st)
             \<lparr>m_docs := qmapInsert (dname (loadDocset E path)) (loadDocset E path)
                          (m_docs (remove E (dname (loadDocset E path)) st))\<rparr> \<and>
         count_docs (addDocset E path st) = count_docs st \<and>
         closedDbs (addDocset E path st) = closeDb (db old) (closedDbs st) \<and>
         map_of (m_docs (addDocset E path st)) (dname (loadDocset E path)) = Some (loadDocset E path) \<and>
         set (docsets (addDocset E path st)) \<subseteq>
           insert (loadDocset E path) (snd ` {kv \<in> set (m_docs st). fst kv \<noteq> dname (loadDocset E path)}) \<and>
         (\<forall>q. dbExec E (closedDbs (addDocset E path st)) old q = [])"
proof -
  define new where "new = loadDocset E path"
  define name where "name = dname new"
  have c: "contains name st" using old by (simp add: contains_def name_def new_def)
  have rm: "remove E name st =
      st\<lparr>closedDbs := closeDb (db old) (closedDbs st), m_docs := qmapRemove name (m_docs st)\<rparr>"
    using old unfolding name_def new_def by (rule remove_present)
  have add: "addDocset E path st =
      (remove E name st)\<lparr>m_docs := qmapInsert name new (m_docs (remove E name st))\<rparr>"
    using valid c by (simp add: addDocset_def Let_def name_def new_def)
  have docs: "m_docs (addDocset E path st) = qmapInsert name new (qmapRemove name (m_docs st))"
    by (simp add: add rm)
  have absent: "name \<notin> fst ` set (qmapRemove name (m_docs st))" by (rule qmapRemove_absent)
  have cnt: "count_docs (addDocset E path st) = count_docs st"
    using length_qmapRemove_present [OF keys old [folded new_def name_def]]
    by (simp add: count_docs_def docs length_qmapInsert_new [OF absent])
  have cl: "closedDbs (addDocset E path st) = closeDb (db old) (closedDbs st)"
    by (simp add: add rm)
  have lk: "map_of (m_docs (addDocset E path st)) name = Some new"
    by (simp add: docs map_of_qmapInsert_new [OF absent])
  have ds: "set (docsets (addDocset E path st)) \<subseteq>
      insert new (snd ` {kv \<in> set (m_docs st). fst kv \<noteq> name})"
  proof -
    have "set (m_docs (addDocset E path st)) = insert (name, new) (set (qmapRemove name (m_docs st)))"
      unfolding docs using absent by (rule set_qmapInsert_new)
    then show ?thesis by (auto simp: docsets_def qmapRemove_def)
  qed
  have ex: "\<forall>q. dbExec E (closedDbs (addDocset E path st)) old q = []"
    by (simp add: cl dbExec_closed)
  from c add cnt cl lk ds ex show ?thesis unfolding name_def new_def by blast
qed

text \<open>C7 on the example: the docset \<open>Java\<close> is added again, on connection 4.\<close>

theorem addDocset_replaces_entry_witness:
  "isValid (loadDocset exampleEnv ''/docsets/Java.docset'') \<and>
   map_of (m_docs exampleRegistry) ''Java'' = Some (exampleDocset 3) \<and>
   count_docs (addDocset exampleEnv ''/docsets/Java.docset'' exampleRegistry) = 1 \<and>
   closedDbs (addDocset exampleEnv ''/docsets/Java.docset'' exampleRegistry) = {3} \<and>
   map_of (m_docs (addDocset exampleEnv ''/docsets/Java.docset'' exampleRegistry)) ''Java''
     = Some (exampleDocset 4)"
proof -
  have n: "dname (loadDocset exampleEnv ''/docsets/Java.docset'') = ''Java''"
    and l: "loadDocset exampleEnv ''/docsets/Java.docset'' = exampleDocset 4"
    by (simp_all add: exampleEnv_def exampleDocset_def)
  have v: "isValid (loadDocset exampleEnv ''/docsets/Java.docset'')"
    by (simp add: exampleEnv_def exampleDocset_def)
  have o: "map_of (m_docs exampleRegistry) (dname (loadDocset exampleEnv ''/docsets/Java.docset''))
      = Some (exampleDocset 3)"
    unfolding n by (simp add: exampleRegistry_def)
  have k: "distinct (map fst (m_docs exampleRegistry))" by (simp add: exampleRegistry_def)
  from addDocset_replaces_entry [OF v o k]
  have c: "count_docs (addDocset exampleEnv ''/docsets/Java.docset'' exampleRegistry)
        = count_docs exampleRegistry"
    and cl: "closedDbs (addDocset exampleEnv ''/docsets/Java.docset'' exampleRegistry)
        = closeDb (db (exampleDocset 3)) (closedDbs exampleRegistry)"
    and lk: "map_of (m_docs (addDocset exampleEnv ''/docsets/Java.docset'' exampleRegistry))
          (dname (loadDocset exampleEnv ''/docsets/Java.docset''))
        = Some (loadDocset exampleEnv ''/docsets/Java.docset'')"
    by blast+
  have c': "count_docs exampleRegistry = 1" by (simp add: count_docs_def exampleRegistry_def)
  have cl': "closeDb (db (exampleDocset 3)) (closedDbs exampleRegistry) = {3}"
    by (simp add: exampleDocset_def exampleRegistry_def)
  have n': "dname (exampleDocset 4) = ''Java''" by (simp add: exampleDocset_def)
  show ?thesis using v o [unfolded n] c cl lk [unfolded l] by (simp only: c' cl' n' simp_thms)
qed

text \<open>An invalid docset leaves the registry as it is; nothing in it tells the caller.\<close>

lemma addDocset_invalid: "\<not> isValid (loadDocset E path) \<Longrightarrow> addDocset E path st = st"
  by (simp add: addDocset_def)

text \<open>
  C8 at a path with no valid docset: the registry after the call equals the registry
  before it, member by member, and \<^verbatim>\<open>addDocset\<close> returns nothing else; the source has
  \<^verbatim>\<open>/// TODO: Emit error\<close> at this place.
\<close>

theorem addDocset_invalid_silent:
  "\<not> isValid (loadDocset exampleEnv ''/docsets/broken.docset'') \<and>
   addDocset exampleEnv ''/docsets/broken.docset'' exampleRegistry = exampleRegistry"
  by (simp add: addDocset_def exampleEnv_def invalidDocset_def)

text \<open>
  C9, as amended. For a name the registry does not hold, \<^verbatim>\<open>relatedLinks\<close> reports no
  error: \<^verbatim>\<open>m_docs[name]\<close> gives a default-constructed docset, whose database has no
  connection, and the result is the empty list.
\<close>

theorem relatedLinks_unknown_name:
  assumes "\<not> contains name st" and "db (defaultDocset E) = None"
  shows "fst (relatedLinks E name path st) = []"
proof -
  from assms(1) have "map_of (m_docs st) name = None" by (simp add: contains_def)
  then have "qmapSubscript name (defaultDocset E) (m_docs st)
      = (defaultDocset E, qmapInsert name (defaultDocset E) (m_docs st))"
    by (simp add: qmapSubscript_def)
  moreover have "dbExec E (closedDbs st) (defaultDocset E) q = []" for q
    using assms(2) by (simp add: dbExec_def)
  ultimately show ?thesis by (simp add: relatedLinks_def Let_def)
qed

text \<open>C9, as amended, on the example.\<close>

theorem relatedLinks_unknown_name_witness:
  "\<not> contains ''Missing'' exampleRegistry \<and> db (defaultDocset exampleEnv) = None \<and>
   fst (relatedLinks exampleEnv ''Missing'' ''list.html'' exampleRegistry) = []"
proof -
  have a: "\<not> contains ''Missing'' exampleRegistry" by (simp add: contains_def exampleRegistry_def)
  have b: "db (defaultDocset exampleEnv) = None" by (simp add: exampleEnv_def invalidDocset_def)
  from relatedLinks_unknown_name [OF a b] a b show ?thesis by simp
qed

text \<open>
  C9 as stated: for the unknown name \<open>Missing\<close> the call returns a result list, the
  empty one, and no error; beside it, the subscript has put a default-constructed
  docset under that name.
\<close>

theorem relatedLinks_no_error_counterexample:
  "\<not> contains ''Missing'' exampleRegistry \<and>
   relatedLinks exampleEnv ''Missing'' ''list.html'' exampleRegistry =
     ([], exampleRegistry\<lparr>m_docs := [(''Java'', exampleDocset 3), (''Missing'', invalidDocset)]\<rparr>)"
  by (simp add: contains_def exampleRegistry_def relatedLinks_def qmapSubscript_def exampleEnv_def
      dbExec_def invalidDocset_def Let_def)

text \<open>
  C10. Every result of \<^verbatim>\<open>relatedLinks\<close> has the null string as parent name and as
  original query (and the name given as docset name), whatever the store holds.
\<close>

theorem relatedLinks_discards_parent:
  "\<forall>r \<in> set (fst (relatedLinks E name path st)). parentName r = None \<and> originalQuery r = None \<and> docsetName r = name"
  by (auto simp: relatedLinks_def Let_def split: prod.splits)

lemma eval_related:
  "fst (relatedLinks exampleEnv ''Java'' ''vector.html#push_back'' exampleRegistry) =
     [\<lparr>resultName = ''push_back'', parentName = None, resultPath = ''vector.html#push_back'',
       docsetName = ''Java'', originalQuery = None\<rparr>]"
  "snd (normalizeName ''std::vector::push_back'' None None) = Some ''vector''"
  by code_simp+

text \<open>C10 on the example: the page of \<open>std::vector::push_back\<close>, whose normalisation
  gives the parent \<open>vector\<close>.\<close>

theorem relatedLinks_discards_parent_witness:
  "fst (relatedLinks exampleEnv ''Java'' ''vector.html#push_back'' exampleRegistry) =
     [\<lparr>resultName = ''push_back'', parentName = None, resultPath = ''vector.html#push_back'',
       docsetName = ''Java'', originalQuery = None\<rparr>] \<and>
   snd (normalizeName ''std::vector::push_back'' None None) = Some ''vector'' \<and>
   list_all (\<lambda>r. parentName r = None \<and> originalQuery r = None)
     (fst (relatedLinks exampleEnv ''Java'' ''vector.html#push_back'' exampleRegistry))"
proof -
  from relatedLinks_discards_parent [of exampleEnv "''Java''" "''vector.html#push_back''" exampleRegistry]
  have "list_all (\<lambda>r. parentName r = None \<and> originalQuery r = None)
     (fst (relatedLinks exampleEnv ''Java'' ''vector.html#push_back'' exampleRegistry))"
    by (simp add: list_all_iff)
  with eval_related show ?thesis by simp
qed

section \<open>Properties of the statement texts\<close>

lemma arg_other: "c \<noteq> CHR ''%'' \<Longrightarrow> arg (c # cs) as = c # arg cs as"
  by simp

lemma arg_percent_other:
  "\<not> isDigit d \<Longrightarrow> arg (CHR ''%'' # d # cs) as = CHR ''%'' # arg (d # cs) as"
  by simp

lemma arg_percent_end: "arg [CHR ''%''] as = [CHR ''%'']"
  by simp

lemma arg_marker:
  "isDigit d \<Longrightarrow> \<not> isDigit e \<Longrightarrow>
   arg (CHR ''%'' # d # e # cs) as = place [CHR ''%'', d] (digitValue d) as @ arg (e # cs) as"
  by (simp add: markerNumber_def)

lemmas arg_eval = arg_other arg_percent_other arg_percent_end arg_marker arg.simps(1)

declare arg.simps [simp del]

lemma subNames_text:
  "arg subNames [col, q] =
     '' or '' @ col @ '' like '%.'' @ q @ ''%' escape '' @ backslashLiteral @
     '' or '' @ col @ '' like '%::'' @ q @ ''%' escape '' @ backslashLiteral @
     '' or '' @ col @ '' like '%/'' @ q @ ''%' escape '' @ backslashLiteral"
  by (simp add: subNames_def backslashLiteral_def arg_eval isDigit_def digitValue_def place_def)

lemma statementText_phase1:
  "statementText d p False =
     selectHead (dtype d) @ namesText (nameColumn (dtype d)) p @ selectGap (dtype d) @ selectRest (dtype d)"
  by (cases "dtype d")
    (simp_all add: statementText_def selectDash_def selectZDash_def subNames_text selectHead_def
      selectGap_def selectRest_def namesText_def likeText_def nameColumn_def backslashLiteral_def
      arg_eval isDigit_def digitValue_def place_def)

lemma statementText_phase2:
  "statementText d p True =
     selectHead (dtype d) @ namesText (nameColumn (dtype d)) (''%'' @ p) @ selectGap (dtype d) @
     '' and not '' @ namesText (nameColumn (dtype d)) p @ '' '' @ selectRest (dtype d)"
  by (cases "dtype d")
    (simp_all add: statementText_def selectDash_def selectZDash_def notQueryDash_def notQueryZDash_def
      subNames_text selectHead_def
      selectGap_def selectRest_def namesText_def likeText_def nameColumn_def backslashLiteral_def
      arg_eval isDigit_def digitValue_def place_def)

lemma expect_append: "expect s (s @ t) = Some t"
  by (simp add: expect_def)

lemma expect_Cons: "expect (c # s) (d # t) = (if c = d then expect s t else None)"
  by (simp add: expect_def)

lemma readLiteral_other:
  "c \<noteq> CHR 0x27 \<Longrightarrow> readLiteral (c # t) = map_option (\<lambda>(v, r). (c # v, r)) (readLiteral t)"
  by (cases t) simp_all

lemma readLiteral_term:
  "literalValue p = Some v \<Longrightarrow>
   readLiteral (p @ t) = map_option (\<lambda>(w, r). (v @ w, r)) (readLiteral t)"
proof (induction p arbitrary: v rule: literalValue.induct)
  case 1
  then show ?case by (simp add: option.map_ident)
next
  case (2 c)
  then have c: "c \<noteq> CHR 0x27" "v = [c]" by (simp_all split: if_splits)
  then show ?case by (simp add: readLiteral_other)
next
  case (3 c d cs)
  show ?case
  proof (cases "c = CHR 0x27")
    case True
    with "3.prems" have d: "d = CHR 0x27" by (simp split: if_splits)
    with True "3.prems" obtain w where w: "literalValue cs = Some w" "v = c # w" by auto
    from "3.IH"(1) [OF True d w(1)] True d w(2) show ?thesis
      by (simp add: option.map_comp comp_def case_prod_unfold)
  next
    case False
    with "3.prems" obtain w where w: "literalValue (d # cs) = Some w" "v = c # w" by auto
    from "3.IH"(2) [OF False w(1)] False w(2) show ?thesis
      by (simp add: readLiteral_other option.map_comp comp_def case_prod_unfold)
  qed
qed

lemma literalValue_append:
  "literalValue a = Some a' \<Longrightarrow> literalValue b = Some b' \<Longrightarrow> literalValue (a @ b) = Some (a' @ b')"
proof (induction a arbitrary: a' rule: literalValue.induct)
  case 1
  then show ?case by simp
next
  case (2 c)
  then have c: "c \<noteq> CHR 0x27" "a' = [c]" by (simp_all split: if_splits)
  with 2 show ?case by (cases b) auto
next
  case (3 c d cs)
  show ?case
  proof (cases "c = CHR 0x27")
    case True
    with "3.prems" have d: "d = CHR 0x27" by (simp split: if_splits)
    with True "3.prems" obtain w where w: "literalValue cs = Some w" "a' = c # w" by auto
    from "3.IH"(1) [OF True d w(1) "3.prems"(2)] True d w(2) show ?thesis by simp
  next
    case False
    with "3.prems" obtain w where w: "literalValue (d # cs) = Some w" "a' = c # w" by auto
    from "3.IH"(2) [OF False w(1) "3.prems"(2)] False w(2) show ?thesis by simp
  qed
qed

lemma literalValue_patterns:
  assumes "literalValue x = Some xv"
  shows "literalValue (x @ ''%'') = Some (xv @ ''%'')"
    "literalValue (''%.'' @ x @ ''%'') = Some (''%.'' @ xv @ ''%'')"
    "literalValue (''%::'' @ x @ ''%'') = Some (''%::'' @ xv @ ''%'')"
    "literalValue (''%/'' @ x @ ''%'') = Some (''%/'' @ xv @ ''%'')"
    "literalValue (''%'' @ x) = Some (''%'' @ xv)"
proof -
  have p: "literalValue ''%'' = Some ''%''" by simp
  show a: "literalValue (x @ ''%'') = Some (xv @ ''%'')"
    using assms p by (rule literalValue_append)
  have "literalValue ''%.'' = Some ''%.''" by simp
  from literalValue_append [OF this a]
  show "literalValue (''%.'' @ x @ ''%'') = Some (''%.'' @ xv @ ''%'')" .
  have "literalValue ''%::'' = Some ''%::''" by simp
  from literalValue_append [OF this a]
  show "literalValue (''%::'' @ x @ ''%'') = Some (''%::'' @ xv @ ''%'')" .
  have "literalValue ''%/'' = Some ''%/''" by simp
  from literalValue_append [OF this a]
  show "literalValue (''%/'' @ x @ ''%'') = Some (''%/'' @ xv @ ''%'')" .
  from literalValue_append [OF p assms] show "literalValue (''%'' @ x) = Some (''%'' @ xv)" .
qed

lemma readLike_text:
  assumes "literalValue x = Some xv"
  shows "readLike col (likeText col x @ t) = Some (Like col xv, t)"
proof -
  define e where "e = '' escape '' @ backslashLiteral"
  have "likeText col x @ t = (col @ '' like '' @ [CHR 0x27]) @ (x @ CHR 0x27 # e @ t)"
    by (simp add: likeText_def e_def)
  then have 1: "expect (col @ '' like '' @ [CHR 0x27]) (likeText col x @ t) = Some (x @ CHR 0x27 # e @ t)"
    by (simp only: expect_append)
  have "readLiteral (CHR 0x27 # e @ t) = Some ([], e @ t)"
    by (simp add: e_def)
  with readLiteral_term [OF assms, of "CHR 0x27 # e @ t"]
  have 2: "readLiteral (x @ CHR 0x27 # e @ t) = Some (xv, e @ t)" by simp
  have 3: "expect e (e @ t) = Some t" by (rule expect_append)
  show ?thesis
    unfolding readLike_def 1 e_def [symmetric]
    by (simp only: bind.simps 2 3 prod.case option.map)
qed

lemma nameCond_patterns:
  "nameCond col p =
     Or (Or (Or (Like col (p @ ''%'')) (Like col (''%.'' @ p @ ''%'')))
            (Like col (''%::'' @ p @ ''%'')))
        (Like col (''%/'' @ p @ ''%''))"
  by (simp add: nameCond_def subNameConds_def)

lemma readNames_text:
  assumes "literalValue x = Some xv"
  shows "readNames col (namesText col x @ rest) = Some (nameCond col xv, rest)"
proof -
  note p = literalValue_patterns [OF assms]
  define t8 where "t8 = '')'' @ rest"
  define t7 where "t7 = likeText col (''%/'' @ x @ ''%'') @ t8"
  define t6 where "t6 = '' or '' @ t7"
  define t5 where "t5 = likeText col (''%::'' @ x @ ''%'') @ t6"
  define t4 where "t4 = '' or '' @ t5"
  define t3 where "t3 = likeText col (''%.'' @ x @ ''%'') @ t4"
  define t2 where "t2 = ''  or '' @ t3"
  define t1 where "t1 = likeText col (x @ ''%'') @ t2"
  have e: "namesText col x @ rest = ''('' @ t1"
    by (simp add: namesText_def t1_def t2_def t3_def t4_def t5_def t6_def t7_def t8_def)
  have r1: "readLike col t1 = Some (Like col (xv @ ''%''), t2)"
    unfolding t1_def by (rule readLike_text [OF p(1)])
  have r3: "readLike col t3 = Some (Like col (''%.'' @ xv @ ''%''), t4)"
    unfolding t3_def by (rule readLike_text [OF p(2)])
  have r5: "readLike col t5 = Some (Like col (''%::'' @ xv @ ''%''), t6)"
    unfolding t5_def by (rule readLike_text [OF p(3)])
  have r7: "readLike col t7 = Some (Like col (''%/'' @ xv @ ''%''), t8)"
    unfolding t7_def by (rule readLike_text [OF p(4)])
  have x0: "expect ''('' (''('' @ t1) = Some t1" by (rule expect_append)
  have x2: "expect ''  or '' t2 = Some t3" unfolding t2_def by (rule expect_append)
  have x4: "expect '' or '' t4 = Some t5" unfolding t4_def by (rule expect_append)
  have x6: "expect '' or '' t6 = Some t7" unfolding t6_def by (rule expect_append)
  have x8: "expect '')'' t8 = Some rest" unfolding t8_def by (rule expect_append)
  show ?thesis
    unfolding e readNames_def nameCond_patterns
    by (simp only: bind.simps x0 r1 x2 r3 x4 r5 x6 r7 x8 prod.case option.map)
qed

lemma expect_head:
  "expect (selectHead Dash) (selectHead Dash @ t) = Some t"
  "expect (selectHead ZDash) (selectHead ZDash @ t) = Some t"
  "expect (selectHead Dash) (selectHead ZDash @ t) = None"
  by (simp_all add: expect_append) (simp add: selectHead_def expect_Cons)

lemma readWhere_phase1:
  assumes "literalValue p = Some v"
  shows "readWhere col gap rest (namesText col p @ gap @ rest) = Some (nameCond col v)"
  unfolding readWhere_def readNames_text [OF assms]
  by (simp only: bind.simps prod.case expect_append refl if_True)

lemma readWhere_phase2:
  assumes "literalValue p = Some v" "literalValue p' = Some v'"
    and ne: "'' and not '' @ namesText col p @ '' '' @ rest \<noteq> rest"
  shows "readWhere col gap rest (namesText col p' @ gap @ '' and not '' @ namesText col p @ '' '' @ rest)
         = Some (And (nameCond col v') (Not (nameCond col v)))"
  unfolding readWhere_def readNames_text [OF assms(2)]
  by (simp only: bind.simps prod.case expect_append ne if_False readNames_text [OF assms(1)] refl if_True)

lemma phase2_differs:
  "'' and not '' @ namesText col p @ '' '' @ selectRest t \<noteq> selectRest t"
  by (cases t) (simp_all add: selectRest_def)

lemma parse_phase1:
  assumes "literalValue p = Some v"
  shows "parseStatement (statementText d p False) = Some (phase1 d v)"
proof (cases "dtype d")
  case Dash
  show ?thesis
    unfolding statementText_phase1 parseStatement_def phase1_def Dash expect_head option.case bind.simps
      readWhere_phase1 [OF assms]
    by (simp add: statement_def)
next
  case ZDash
  show ?thesis
    unfolding statementText_phase1 parseStatement_def phase1_def ZDash expect_head option.case bind.simps
      readWhere_phase1 [OF assms]
    by (simp add: statement_def)
qed

lemma parse_phase2:
  assumes "literalValue p = Some v"
  shows "parseStatement (statementText d p True) = Some (phase2 d v)"
proof -
  note r = readWhere_phase2 [OF assms literalValue_patterns(5) [OF assms] phase2_differs]
  show ?thesis
  proof (cases "dtype d")
    case Dash
    show ?thesis
      unfolding statementText_phase2 parseStatement_def phase2_def Dash expect_head option.case bind.simps r
      by (simp add: statement_def)
  next
    case ZDash
    show ?thesis
      unfolding statementText_phase2 parseStatement_def phase2_def ZDash expect_head option.case bind.simps r
      by (simp add: statement_def)
  qed
qed

text \<open>A term with a single quote that is not doubled ends its literal, and the text is
  none of the statements the model reads.\<close>

lemma quote_ends_literal:
  "literalValue ''it's'' = None"
  "parseStatement (statementText (exampleDocset 3) ''it's'' False) = None"
  "literalValue ''a' or 1=1) limit 500 --'' = None"
  "parseStatement (statementText (exampleDocset 3) ''a' or 1=1) limit 500 --'' False) = None"
  by code_simp+

section \<open>Properties of the search\<close>

lemma dbExecText_read:
  "parseStatement qstr = Some q \<Longrightarrow> dbExecText E closed d qstr = dbExec E closed d q"
  by (simp add: dbExecText_def dbExec_def split: option.splits)

lemma searchLoop_two_phase:
  assumes "literalValue p = Some v"
  shows "searchLoop E closed d p False [] [] =
     (let v1 = phaseValues E closed d (phase1 d v);
          v2 = phaseValues E closed d (phase2 d v)
      in if length v1 < 100
         then (v1 @ v2, [(statementText d p False, v1), (statementText d p True, v2)])
         else (v1, [(statementText d p False, v1)]))"
proof -
  note r = dbExecText_read [OF parse_phase1 [OF assms]] dbExecText_read [OF parse_phase2 [OF assms]]
  show ?thesis
    by (simp add: searchLoop.simps [of E closed d p] Let_def phaseValues_def r)
qed

lemma exec_searchIndex_rows:
  assumes "r \<in> set (exec s (SelectSearchIndex c))"
  shows "\<exists>n p. r = [Text n, Null, Text p] \<and> evalCond n c"
proof (cases s)
  case (DashStore rows)
  with assms obtain x where "r = [Text (si_name x), Null, Text (si_path x)]"
    and "x \<in> set (take 100 (sort_key (\<lambda>r. (length (si_name r), toLower (si_name r), si_path r))
             (filter (\<lambda>r. evalCond (si_name r) c) rows)))"
    by (auto split: if_splits)
  moreover from this(2) have "evalCond (si_name x) c" by (auto dest!: in_set_takeD)
  ultimately show ?thesis by blast
next
  case (ZDashStore a b c d)
  with assms show ?thesis by simp
qed

lemma exec_ztoken_rows:
  assumes "r \<in> set (exec s (SelectZToken c))"
  shows "\<exists>n p a. r = [Text n, Null, Text p, Text a] \<and> evalCond n c"
proof (cases s)
  case (DashStore rows)
  with assms show ?thesis by simp
next
  case (ZDashStore toks metas files types)
  with assms obtain x where "r = (case x of (n, p, a) \<Rightarrow> [Text n, Null, Text p, Text a])"
    and "x \<in> set (take 100 (sort_key (\<lambda>(n, p, a). (length n, toLower n, p, a))
             (filter (\<lambda>(n, p, a). evalCond n c) (ztokenJoin toks metas files))))"
    by (auto split: if_splits)
  moreover from this(2) have "case x of (n, p, a) \<Rightarrow> evalCond n c" by (auto dest!: in_set_takeD)
  ultimately show ?thesis by (cases x) auto
qed

lemma exec_limit:
  "length (exec s (SelectSearchIndex c)) \<le> 100" "length (exec s (SelectZToken c)) \<le> 100"
  by (cases s; simp)+

lemma dbExec_cases:
  "dbExec E closed d q = [] \<or> (\<exists>h. dbExec E closed d q = exec (stores E h) q)"
  by (auto simp: dbExec_def split: option.splits)

lemma phaseValues_limit: "length (phaseValues E closed d (statement t c)) \<le> 100"
  using dbExec_cases [of E closed d "statement t c"] exec_limit
  by (cases t) (auto simp: phaseValues_def statement_def)

lemma phaseValues_sound:
  assumes "r \<in> set (phaseValues E closed d (statement (dtype d) c))"
  shows "evalCond (toString (valueAt r 0)) c"
proof (cases "dtype d")
  case Dash
  with assms obtain r0 where r0: "r0 \<in> set (dbExec E closed d (SelectSearchIndex c))"
    and r: "r = map (valueAt r0) [0..<3]"
    by (auto simp: phaseValues_def statement_def)
  from r0 dbExec_cases [of E closed d "SelectSearchIndex c"]
  obtain h where "r0 \<in> set (exec (stores E h) (SelectSearchIndex c))" by auto
  then obtain n p where "r0 = [Text n, Null, Text p]" "evalCond n c"
    using exec_searchIndex_rows by blast
  with r show ?thesis by (simp add: valueAt_def)
next
  case ZDash
  with assms obtain r0 where r0: "r0 \<in> set (dbExec E closed d (SelectZToken c))"
    and r: "r = map (valueAt r0) [0..<4]"
    by (auto simp: phaseValues_def statement_def)
  from r0 dbExec_cases [of E closed d "SelectZToken c"]
  obtain h where "r0 \<in> set (exec (stores E h) (SelectZToken c))" by auto
  then obtain n p a where "r0 = [Text n, Null, Text p, Text a]" "evalCond n c"
    using exec_ztoken_rows by blast
  with r show ?thesis by (simp add: valueAt_def)
qed

text \<open>
  C2. For every docset and every sanitised term that stays inside the literals it is
  substituted into (each single quote in it is doubled; \<open>v\<close> is the text it stands for),
  the loop started as \<^verbatim>\<open>_runQuery\<close> starts it (nothing found, prefix mode): the database
  reads the two texts as the statement of the prefix mode and the statement of the
  substring mode; each of them returns at most 100 rows; when the first returns fewer
  than 100 the second is run and \<open>found\<close> is the rows of both; otherwise only the first
  is run and \<open>found\<close> is its rows.
\<close>

theorem two_phase_cap:
  assumes "literalValue p = Some v"
  shows "let t1 = statementText docset p False;
             t2 = statementText docset p True;
             v1 = phaseValues E closed docset (phase1 docset v);
             v2 = phaseValues E closed docset (phase2 docset v)
         in parseStatement t1 = Some (phase1 docset v) \<and>
            parseStatement t2 = Some (phase2 docset v) \<and>
            length v1 \<le> 100 \<and> length v2 \<le> 100 \<and>
            searchLoop E closed docset p False [] [] =
              (if length v1 < 100 then (v1 @ v2, [(t1, v1), (t2, v2)])
               else (v1, [(t1, v1)]))"
  using searchLoop_two_phase [OF assms, of E closed docset]
    parse_phase1 [OF assms, of docset] parse_phase2 [OF assms, of docset]
  by (simp add: Let_def phase1_def phase2_def phaseValues_limit)

lemma eval_phases:
  "literalValue ''list'' = Some ''list''"
  "length (phaseValues fullEnv {} (exampleDocset 3) (phase1 (exampleDocset 3) ''list'')) = 100"
  "phaseValues exampleEnv {} (exampleDocset 3) (phase1 (exampleDocset 3) ''list'') =
     [[Text ''List'', Null, Text ''list.html''],
      [Text ''ListIterator'', Null, Text ''listiterator.html''],
      [Text ''util.ListUtils'', Null, Text ''listutils.html'']]"
  "phaseValues exampleEnv {} (exampleDocset 3) (phase2 (exampleDocset 3) ''list'') =
     [[Text ''ArrayList'', Null, Text ''arraylist.html'']]"
  by code_simp+

text \<open>C2 on the store of 150 matching rows (one statement, 100 rows) and on the example
  store (two statements).\<close>

theorem two_phase_cap_witness:
  "literalValue ''list'' = Some ''list'' \<and>
   snd (searchLoop fullEnv {} (exampleDocset 3) ''list'' False [] []) =
     [(statementText (exampleDocset 3) ''list'' False,
       phaseValues fullEnv {} (exampleDocset 3) (phase1 (exampleDocset 3) ''list''))] \<and>
   length (fst (searchLoop fullEnv {} (exampleDocset 3) ''list'' False [] [])) = 100 \<and>
   searchLoop exampleEnv {} (exampleDocset 3) ''list'' False [] [] =
     ([[Text ''List'', Null, Text ''list.html''],
       [Text ''ListIterator'', Null, Text ''listiterator.html''],
       [Text ''util.ListUtils'', Null, Text ''listutils.html''],
       [Text ''ArrayList'', Null, Text ''arraylist.html'']],
      [(statementText (exampleDocset 3) ''list'' False,
        [[Text ''List'', Null, Text ''list.html''],
         [Text ''ListIterator'', Null, Text ''listiterator.html''],
         [Text ''util.ListUtils'', Null, Text ''listutils.html'']]),
       (statementText (exampleDocset 3) ''list'' True,
        [[Text ''ArrayList'', Null, Text ''arraylist.html'']])])"
  using two_phase_cap [OF eval_phases(1), of "exampleDocset 3" fullEnv "{}"]
    two_phase_cap [OF eval_phases(1), of "exampleDocset 3" exampleEnv "{}"]
  by (simp add: Let_def eval_phases)

lemma eval_calls:
  "snd (searchLoop exampleEnv {} (exampleDocset 3) ''list'' False [] []) =
     [(statementText (exampleDocset 3) ''list'' False,
        [[Text ''List'', Null, Text ''list.html''],
         [Text ''ListIterator'', Null, Text ''listiterator.html''],
         [Text ''util.ListUtils'', Null, Text ''listutils.html'']]),
      (statementText (exampleDocset 3) ''list'' True,
        [[Text ''ArrayList'', Null, Text ''arraylist.html'']])]"
  by (simp add: searchLoop_two_phase [OF eval_phases(1)] Let_def eval_phases)

lemma eval_conds:
  "\<not> evalCond ''ArrayList'' (nameCond ''t.name'' ''list'')"
  "evalCond ''util.ListUtils'' (nameCond ''t.name'' ''list'')"
  by code_simp+

text \<open>
  C3. For a sanitised term that stays inside the literals it is substituted into (\<open>v\<close>
  is the text it stands for): when the loop has run both statements, the database
  reads the first as the condition on the term (the prefix pattern or one of the three
  patterns for qualified names) and the second as the same condition on the term behind
  \<^verbatim>\<open>%\<close> joined by \<^verbatim>\<open>and not\<close> with the whole condition of the first; every row of the
  first satisfies that condition, no row of the second does, and the two lists of rows
  have no row in common.
\<close>

theorem phase2_excludes_phase1:
  assumes "literalValue p = Some v"
    and "snd (searchLoop E closed docset p False [] []) = [(q1, rows1), (q2, rows2)]"
  shows "q1 = statementText docset p False \<and> q2 = statementText docset p True \<and>
         parseStatement q1 = Some (statement (dtype docset) (nameCond (nameColumn (dtype docset)) v)) \<and>
         parseStatement q2 = Some (statement (dtype docset)
                (And (nameCond (nameColumn (dtype docset)) (''%'' @ v))
                     (Not (nameCond (nameColumn (dtype docset)) v)))) \<and>
         nameCond (nameColumn (dtype docset)) v =
           Or (Or (Or (Like (nameColumn (dtype docset)) (v @ ''%''))
                      (Like (nameColumn (dtype docset)) (''%.'' @ v @ ''%'')))
                  (Like (nameColumn (dtype docset)) (''%::'' @ v @ ''%'')))
              (Like (nameColumn (dtype docset)) (''%/'' @ v @ ''%'')) \<and>
         (\<forall>r \<in> set rows1. evalCond (toString (valueAt r 0)) (nameCond (nameColumn (dtype docset)) v)) \<and>
         (\<forall>r \<in> set rows2. \<not> evalCond (toString (valueAt r 0)) (nameCond (nameColumn (dtype docset)) v)) \<and>
         set rows1 \<inter> set rows2 = {}"
proof -
  let ?c = "nameCond (nameColumn (dtype docset)) v"
  let ?v1 = "phaseValues E closed docset (phase1 docset v)"
  let ?v2 = "phaseValues E closed docset (phase2 docset v)"
  from assms(2) searchLoop_two_phase [OF assms(1), of E closed docset]
  have eq: "q1 = statementText docset p False" "q2 = statementText docset p True"
    "rows1 = ?v1" "rows2 = ?v2"
    by (auto simp: Let_def split: if_splits)
  have p1: "parseStatement q1 = Some (statement (dtype docset) ?c)"
    unfolding eq using parse_phase1 [OF assms(1), of docset] by (simp only: phase1_def)
  have p2: "parseStatement q2 = Some (statement (dtype docset)
      (And (nameCond (nameColumn (dtype docset)) (''%'' @ v)) (Not ?c)))"
    unfolding eq using parse_phase2 [OF assms(1), of docset] by (simp only: phase2_def)
  have a: "\<forall>r \<in> set rows1. evalCond (toString (valueAt r 0)) ?c"
    unfolding eq phase1_def by (blast dest: phaseValues_sound)
  have "\<forall>r \<in> set rows2. evalCond (toString (valueAt r 0))
      (And (nameCond (nameColumn (dtype docset)) (''%'' @ v)) (Not ?c))"
    unfolding eq phase2_def by (blast dest: phaseValues_sound)
  then have b: "\<forall>r \<in> set rows2. \<not> evalCond (toString (valueAt r 0)) ?c" by simp
  from a b have c: "set rows1 \<inter> set rows2 = {}" by blast
  from eq(1,2) p1 p2 a b c nameCond_patterns [of "nameColumn (dtype docset)" v] show ?thesis
    by blast
qed

text \<open>C3 on the example store and the term \<open>list\<close>.\<close>

theorem phase2_excludes_phase1_witness:
  "literalValue ''list'' = Some ''list'' \<and>
   snd (searchLoop exampleEnv {} (exampleDocset 3) ''list'' False [] []) =
     [(statementText (exampleDocset 3) ''list'' False,
        [[Text ''List'', Null, Text ''list.html''],
         [Text ''ListIterator'', Null, Text ''listiterator.html''],
         [Text ''util.ListUtils'', Null, Text ''listutils.html'']]),
      (statementText (exampleDocset 3) ''list'' True,
        [[Text ''ArrayList'', Null, Text ''arraylist.html'']])] \<and>
   \<not> evalCond ''ArrayList'' (nameCond ''t.name'' ''list'') \<and>
   evalCond ''util.ListUtils'' (nameCond ''t.name'' ''list'') \<and>
   set [[Text ''List'', Null, Text ''list.html''],
        [Text ''ListIterator'', Null, Text ''listiterator.html''],
        [Text ''util.ListUtils'', Null, Text ''listutils.html'']] \<inter>
   set [[Text ''ArrayList'', Null, Text ''arraylist.html'']] = {}"
proof -
  from phase2_excludes_phase1 [OF eval_phases(1) eval_calls]
  have "set [[Text ''List'', Null, Text ''list.html''],
        [Text ''ListIterator'', Null, Text ''listiterator.html''],
        [Text ''util.ListUtils'', Null, Text ''listutils.html'']] \<inter>
      set [[Text ''ArrayList'', Null, Text ''arraylist.html'']] = {}"
    by blast
  with eval_phases(1) eval_calls eval_conds show ?thesis by blast
qed

section \<open>Properties of the query numbering\<close>

lemma computeResults_cong:
  assumes "m_docs st = m_docs st'" "closedDbs st = closedDbs st'"
  shows "computeResults E st q = computeResults E st' q"
  unfolding computeResults_def searchDocsets_def docsets_def assms ..

lemma computeResults_update [simp]:
  "computeResults E (st\<lparr>m_lastQuery := n\<rparr>) q = computeResults E st q"
  by (rule computeResults_cong) simp_all

text \<open>An invocation whose number is stale at one of its two checks returns there.\<close>

lemma stale_at_entry:
  "queryNum \<noteq> m_lastQuery st \<Longrightarrow> runQuery_entry E rawQuery queryNum st = None"
  by (simp add: runQuery_entry_def)

lemma stale_at_second_check:
  "running s = Some (rawQuery, queryNum, results) \<Longrightarrow> queryNum \<noteq> m_lastQuery (reg s) \<Longrightarrow>
   workerCheck s = s\<lparr>running := None\<rparr>"
  by (simp add: workerCheck_def)

text \<open>When the caller does nothing while the worker runs an invocation, the three steps
  of the worker are \<open>priv_runQuery\<close>.\<close>

lemma worker_alone:
  assumes "running s = None" "checked s = None" "queue s = (rawQuery, queryNum) # rest"
  shows "reg (workerWrite (workerCheck (workerBegin E s))) = priv_runQuery E rawQuery queryNum (reg s)"
  using assms
  by (simp add: workerBegin_def workerCheck_def workerWrite_def priv_runQuery_def runQuery_entry_def
      runQuery_publish_def)

lemma example_fields:
  "m_lastQuery exampleRegistry = 0" "queryCompleted exampleRegistry = 0"
  by (simp_all add: exampleRegistry_def)

lemma eval_trace:
  "run exampleEnv [Submit ''li'', WorkerBegin, WorkerCheck, Invalidate, WorkerWrite]
     (initial exampleRegistry) =
     Some \<lparr>reg = exampleRegistry\<lparr>m_queryResults := computeResults exampleEnv exampleRegistry ''li'',
                                  m_lastQuery := 2, queryCompleted := 1\<rparr>,
           queue = [], running = None, checked = None, published = [(''li'', 1)]\<rparr>"
  "run exampleEnv [Submit ''li'', WorkerBegin, WorkerCheck, Submit ''list'', WorkerWrite]
     (initial exampleRegistry) =
     Some \<lparr>reg = exampleRegistry\<lparr>m_queryResults := computeResults exampleEnv exampleRegistry ''li'',
                                  m_lastQuery := 2, queryCompleted := 1\<rparr>,
           queue = [(''list'', 2)], running = None, checked = None, published = [(''li'', 1)]\<rparr>"
  "run exampleEnv [Submit ''li'', WorkerBegin, Invalidate, WorkerCheck, WorkerWrite]
     (initial exampleRegistry) =
     Some \<lparr>reg = exampleRegistry\<lparr>m_lastQuery := 2\<rparr>,
           queue = [], running = None, checked = None, published = []\<rparr>"
  by (simp_all add: initial_def runQuery_def invalidateQueries_def workerBegin_def workerCheck_def
      workerWrite_def runQuery_entry_def INT_MAX_def example_fields)

lemma eval_results:
  "computeResults exampleEnv exampleRegistry ''list'' =
     [\<lparr>resultName = ''List'', parentName = None, resultPath = ''list.html'',
       docsetName = ''Java'', originalQuery = Some ''list''\<rparr>,
      \<lparr>resultName = ''ArrayList'', parentName = None, resultPath = ''arraylist.html'',
       docsetName = ''Java'', originalQuery = Some ''list''\<rparr>,
      \<lparr>resultName = ''ListUtils'', parentName = Some ''util'', resultPath = ''listutils.html'',
       docsetName = ''Java'', originalQuery = Some ''list''\<rparr>,
      \<lparr>resultName = ''ListIterator'', parentName = None, resultPath = ''listiterator.html'',
       docsetName = ''Java'', originalQuery = Some ''list''\<rparr>]"
  by code_simp

lemma eval_results_li:
  "computeResults exampleEnv exampleRegistry ''li'' =
     [\<lparr>resultName = ''List'', parentName = None, resultPath = ''list.html'',
       docsetName = ''Java'', originalQuery = Some ''li''\<rparr>,
      \<lparr>resultName = ''ArrayList'', parentName = None, resultPath = ''arraylist.html'',
       docsetName = ''Java'', originalQuery = Some ''li''\<rparr>,
      \<lparr>resultName = ''ListUtils'', parentName = Some ''util'', resultPath = ''listutils.html'',
       docsetName = ''Java'', originalQuery = Some ''li''\<rparr>,
      \<lparr>resultName = ''ListIterator'', parentName = None, resultPath = ''listiterator.html'',
       docsetName = ''Java'', originalQuery = Some ''li''\<rparr>]"
  by code_simp

text \<open>
  C1 on the example registry, at a run in which the caller acts between the second check
  of \<^verbatim>\<open>_runQuery\<close> and its assignment to \<^verbatim>\<open>m_queryResults\<close>. The query \<open>li\<close> is
  submitted with number 1, the worker computes its results and passes the second check,
  the caller calls \<^verbatim>\<open>invalidateQueries\<close>, and the worker stores the results of \<open>li\<close>:
  they are published while \<^verbatim>\<open>m_lastQuery\<close> is 2, and they stay, since nothing is queued
  or running. When the caller submits \<open>list\<close> at that moment instead, the results of
  \<open>li\<close> are published after \<open>list\<close> was submitted. The same call of
  \<^verbatim>\<open>invalidateQueries\<close> one step earlier, before the second check, is caught by it, and
  nothing is published.
\<close>

theorem superseded_results_published:
  "run exampleEnv [Submit ''li'', WorkerBegin, WorkerCheck, Invalidate, WorkerWrite]
     (initial exampleRegistry) =
     Some \<lparr>reg = exampleRegistry\<lparr>m_queryResults := computeResults exampleEnv exampleRegistry ''li'',
                                  m_lastQuery := 2, queryCompleted := 1\<rparr>,
           queue = [], running = None, checked = None, published = [(''li'', 1)]\<rparr> \<and>
   quiescent \<lparr>reg = exampleRegistry\<lparr>m_queryResults := computeResults exampleEnv exampleRegistry ''li'',
                                  m_lastQuery := 2, queryCompleted := 1\<rparr>,
           queue = [], running = None, checked = None, published = [(''li'', 1)]\<rparr> \<and>
   run exampleEnv [Submit ''li'', WorkerBegin, WorkerCheck, Submit ''list'', WorkerWrite]
     (initial exampleRegistry) =
     Some \<lparr>reg = exampleRegistry\<lparr>m_queryResults := computeResults exampleEnv exampleRegistry ''li'',
                                  m_lastQuery := 2, queryCompleted := 1\<rparr>,
           queue = [(''list'', 2)], running = None, checked = None, published = [(''li'', 1)]\<rparr> \<and>
   computeResults exampleEnv exampleRegistry ''li'' =
     [\<lparr>resultName = ''List'', parentName = None, resultPath = ''list.html'',
       docsetName = ''Java'', originalQuery = Some ''li''\<rparr>,
      \<lparr>resultName = ''ArrayList'', parentName = None, resultPath = ''arraylist.html'',
       docsetName = ''Java'', originalQuery = Some ''li''\<rparr>,
      \<lparr>resultName = ''ListUtils'', parentName = Some ''util'', resultPath = ''listutils.html'',
       docsetName = ''Java'', originalQuery = Some ''li''\<rparr>,
      \<lparr>resultName = ''ListIterator'', parentName = None, resultPath = ''listiterator.html'',
       docsetName = ''Java'', originalQuery = Some ''li''\<rparr>] \<and>
   run exampleEnv [Submit ''li'', WorkerBegin, Invalidate, WorkerCheck, WorkerWrite]
     (initial exampleRegistry) =
     Some \<lparr>reg = exampleRegistry\<lparr>m_lastQuery := 2\<rparr>,
           queue = [], running = None, checked = None, published = []\<rparr>"
  using eval_trace eval_results_li by (simp add: quiescent_def)

section \<open>Properties of the sort\<close>

lemma nth_qSwap:
  "i < length xs \<Longrightarrow> j < length xs \<Longrightarrow> k < length xs \<Longrightarrow>
   qSwap xs i j ! k = (if k = j then xs ! i else if k = i then xs ! j else xs ! k)"
  by (simp add: qSwap_def nth_list_update)

lemma mset_qSwap: "i < length xs \<Longrightarrow> j < length xs \<Longrightarrow> mset (qSwap xs i j) = mset xs"
  unfolding qSwap_def by (rule mset_swap)

lemma scanUp_spec:
  fixes f :: "'a \<Rightarrow> 'k::linorder"
  assumes "low \<le> high"
  shows "low \<le> scanUp (\<lambda>a b. f a < f b) xs e low high \<and>
         scanUp (\<lambda>a b. f a < f b) xs e low high \<le> high \<and>
         (\<forall>i. low \<le> i \<and> i < scanUp (\<lambda>a b. f a < f b) xs e low high \<longrightarrow> f (xs ! i) < f (xs ! e)) \<and>
         (scanUp (\<lambda>a b. f a < f b) xs e low high < high \<longrightarrow>
            \<not> f (xs ! scanUp (\<lambda>a b. f a < f b) xs e low high) < f (xs ! e))"
  using assms
proof (induction "\<lambda>a b. f a < f b" xs e low high rule: scanUp.induct)
  case (1 xs e low high)
  show ?case
  proof (cases "low < high \<and> f (xs ! low) < f (xs ! e)")
    case True
    then have eq: "scanUp (\<lambda>a b. f a < f b) xs e low high = scanUp (\<lambda>a b. f a < f b) xs e (low + 1) high"
      by (simp add: scanUp.simps [of _ xs e low high])
    define l where "l = scanUp (\<lambda>a b. f a < f b) xs e (low + 1) high"
    from True have "low + 1 \<le> high" by simp
    from "1.hyps" [OF True this]
    have ih: "low + 1 \<le> l" "l \<le> high"
      "\<And>i. low + 1 \<le> i \<Longrightarrow> i < l \<Longrightarrow> f (xs ! i) < f (xs ! e)"
      "l < high \<Longrightarrow> \<not> f (xs ! l) < f (xs ! e)"
      by (simp_all add: l_def)
    have "f (xs ! i) < f (xs ! e)" if "low \<le> i" "i < l" for i
    proof (cases "i = low")
      case True
      with \<open>low < high \<and> f (xs ! low) < f (xs ! e)\<close> show ?thesis by simp
    next
      case False
      with that have "low + 1 \<le> i" by simp
      then show ?thesis using that(2) by (rule ih(3))
    qed
    moreover from ih(1) have "low \<le> l" by simp
    ultimately show ?thesis
      unfolding eq l_def [symmetric] using ih(2,4) by blast
  next
    case False
    then have eq: "scanUp (\<lambda>a b. f a < f b) xs e low high = low"
      by (auto simp: scanUp.simps [of _ xs e low high])
    from False "1.prems" show ?thesis unfolding eq by auto
  qed
qed

lemma scanDown_spec:
  fixes f :: "'a \<Rightarrow> 'k::linorder"
  assumes "low \<le> high"
  shows "low \<le> scanDown (\<lambda>a b. f a < f b) xs e low high \<and>
         scanDown (\<lambda>a b. f a < f b) xs e low high \<le> high \<and>
         (\<forall>i. scanDown (\<lambda>a b. f a < f b) xs e low high < i \<and> i \<le> high \<longrightarrow> f (xs ! e) < f (xs ! i)) \<and>
         (low < scanDown (\<lambda>a b. f a < f b) xs e low high \<longrightarrow>
            \<not> f (xs ! e) < f (xs ! scanDown (\<lambda>a b. f a < f b) xs e low high))"
  using assms
proof (induction "\<lambda>a b. f a < f b" xs e low high rule: scanDown.induct)
  case (1 xs e low high)
  show ?case
  proof (cases "high > low \<and> f (xs ! e) < f (xs ! high)")
    case True
    then have eq: "scanDown (\<lambda>a b. f a < f b) xs e low high = scanDown (\<lambda>a b. f a < f b) xs e low (high - 1)"
      by (simp add: scanDown.simps [of _ xs e low high])
    define h where "h = scanDown (\<lambda>a b. f a < f b) xs e low (high - 1)"
    from True have "low \<le> high - 1" by linarith
    from "1.hyps" [OF True this]
    have ih: "low \<le> h" "h \<le> high - 1"
      "\<And>i. h < i \<Longrightarrow> i \<le> high - 1 \<Longrightarrow> f (xs ! e) < f (xs ! i)"
      "low < h \<Longrightarrow> \<not> f (xs ! e) < f (xs ! h)"
      by (simp_all add: h_def)
    have "f (xs ! e) < f (xs ! i)" if "h < i" "i \<le> high" for i
    proof (cases "i = high")
      case True
      with \<open>low < high \<and> f (xs ! e) < f (xs ! high)\<close> show ?thesis by simp
    next
      case False
      with that have "i \<le> high - 1" by linarith
      with that(1) show ?thesis by (rule ih(3))
    qed
    moreover from ih(2) have "h \<le> high" by linarith
    ultimately show ?thesis
      unfolding eq h_def [symmetric] using ih(1,4) by blast
  next
    case False
    then have eq: "scanDown (\<lambda>a b. f a < f b) xs e low high = high"
      by (auto simp: scanDown.simps [of _ xs e low high])
    from False "1.prems" show ?thesis unfolding eq by auto
  qed
qed

lemma partitionLoop_spec:
  fixes f :: "'a \<Rightarrow> 'k::linorder"
  assumes "partInv f e pv M xs low high"
  shows "partPost f e pv M (length xs) (partitionLoop (\<lambda>a b. f a < f b) e xs low high)"
  using assms
proof (induction "\<lambda>a b. f a < f b" e xs low high rule: partitionLoop.induct)
  case (1 e xs low high)
  note inv = "1.prems" [unfolded partInv_def]
  show ?case
  proof (cases "low < high")
    case False
    then have eq: "partitionLoop (\<lambda>a b. f a < f b) e xs low high = (xs, low)"
      by (simp add: partitionLoop.simps [of _ e xs low high])
    from False inv have "low = high \<or> low = high + 1" by linarith
    with inv show ?thesis unfolding eq partPost_def by auto
  next
    case lh: True
    define low1 where "low1 = scanUp (\<lambda>a b. f a < f b) xs e low high"
    define high1 where "high1 = scanDown (\<lambda>a b. f a < f b) xs e low1 high"
    from lh have "low \<le> high" by simp
    from scanUp_spec [OF this, of f xs e]
    have up: "low \<le> low1" "low1 \<le> high"
      "\<And>i. low \<le> i \<Longrightarrow> i < low1 \<Longrightarrow> f (xs ! i) < pv"
      "low1 < high \<Longrightarrow> \<not> f (xs ! low1) < pv"
      using inv by (simp_all add: low1_def)
    from scanDown_spec [OF up(2), of f xs e]
    have down: "low1 \<le> high1" "high1 \<le> high"
      "\<And>i. high1 < i \<Longrightarrow> i \<le> high \<Longrightarrow> pv < f (xs ! i)"
      "low1 < high1 \<Longrightarrow> \<not> pv < f (xs ! high1)"
      using inv by (simp_all add: high1_def)
    have below: "f (xs ! i) \<le> pv" if "i < low1" for i
    proof (cases "i < low")
      case True
      with inv show ?thesis by simp
    next
      case False
      then have "low \<le> i" by simp
      from up(3) [OF this that] show ?thesis by simp
    qed
    have above: "pv \<le> f (xs ! i)" if "high1 < i" "i < e" for i
    proof (cases "high < i")
      case True
      with inv that show ?thesis by simp
    next
      case False
      then have "i \<le> high" by simp
      from down(3) [OF that(1) this] show ?thesis by simp
    qed
    show ?thesis
    proof (cases "low1 < high1")
      case False
      then have eq: "partitionLoop (\<lambda>a b. f a < f b) e xs low high = (xs, low1)"
        using lh by (simp add: partitionLoop.simps [of _ e xs low high] low1_def high1_def Let_def)
      from False down(1) have "high1 = low1" by simp
      with inv up(2) below above show ?thesis unfolding eq partPost_def by auto
    next
      case True
      then have eq: "partitionLoop (\<lambda>a b. f a < f b) e xs low high
          = partitionLoop (\<lambda>a b. f a < f b) e (qSwap xs low1 high1) (low1 + 1) (high1 - 1)"
        using lh by (simp add: partitionLoop.simps [of _ e xs low high] low1_def high1_def Let_def)
      have b: "low1 < length xs" "high1 < length xs" "high1 < e" "low1 < e"
        using inv True down(2) by simp_all
      have nth: "qSwap xs low1 high1 ! k =
          (if k = high1 then xs ! low1 else if k = low1 then xs ! high1 else xs ! k)"
        if "k < length xs" for k
        using b(1,2) that by (rule nth_qSwap)
      have pl: "pv \<le> f (xs ! low1)" using up(4) True down(2) by auto
      have ph: "f (xs ! high1) \<le> pv" using down(4) True by auto
      have "partInv f e pv M (qSwap xs low1 high1) (low1 + 1) (high1 - 1)"
        unfolding partInv_def
      proof (intro conjI allI impI)
        show "e < length (qSwap xs low1 high1)" using inv by simp
        show "high1 - 1 < e" using b(3) by simp
        show "low1 + 1 < e" using True b(3) by simp
        show "low1 + 1 \<le> high1 - 1 + 1" using True by simp
        show "f (qSwap xs low1 high1 ! e) = pv" using inv b by (simp add: nth)
        show "mset (qSwap xs low1 high1) = M" using inv b(1,2) by (simp add: mset_qSwap)
      next
        fix i assume "i < low1 + 1"
        then have "i < low1 \<or> i = low1" by auto
        then show "f (qSwap xs low1 high1 ! i) \<le> pv"
          using below ph b True by (auto simp: nth)
      next
        fix i assume "high1 - 1 < i \<and> i < e"
        then have i: "i = high1 \<or> high1 < i" "i < e" by auto
        with inv have "i < length xs" by simp
        with i show "pv \<le> f (qSwap xs low1 high1 ! i)"
          using above pl b True by (auto simp: nth)
      qed
      from "1.hyps" [OF lh low1_def high1_def True this]
      show ?thesis unfolding eq by simp
    qed
  qed
qed

lemma sorted_pivot_parts:
  fixes f :: "'a \<Rightarrow> 'k::linorder"
  assumes "sorted (map f as)" "sorted (map f bs)"
    and "\<forall>x \<in> set as. f x \<le> f p" "\<forall>y \<in> set bs. f p \<le> f y"
  shows "sorted (map f (as @ [p] @ bs))"
  using assms by (auto simp: sorted_append intro: order_trans)

lemma qSortHelper_sorts:
  fixes f :: "'a \<Rightarrow> 'k::linorder"
  shows "mset (qSortHelper (\<lambda>a b. f a < f b) xs) = mset xs \<and>
         sorted (map f (qSortHelper (\<lambda>a b. f a < f b) xs))"
proof (induction "length xs" arbitrary: xs rule: less_induct)
  case less
  let ?lt = "\<lambda>a b. f a < f b"
  consider "length xs < 2" | "length xs = 2" | "length xs = 3" | "4 \<le> length xs" by linarith
  then show ?case
  proof cases
    case 1
    then have "qSortHelper ?lt xs = xs" by (simp add: qSortHelper.simps [of _ xs])
    moreover from 1 have "sorted (map f xs)" by (cases xs; cases "tl xs") auto
    ultimately show ?thesis by simp
  next
    case 2
    then obtain a b where xs: "xs = [a, b]"
      by (cases xs; cases "tl xs"; cases "tl (tl xs)") auto
    show ?thesis
      by (auto simp: xs qSortHelper.simps [of _ "[a, b]"] qSwap_def)
  next
    case 3
    then obtain a b c where xs: "xs = [a, b, c]"
      by (cases xs; cases "tl xs"; cases "tl (tl xs)"; cases "tl (tl (tl xs))") auto
    have three: "(3::nat) div 2 = 1" by simp
    show ?thesis
      unfolding xs qSortHelper.simps [of _ "[a, b, c]"]
      by (simp add: three qSwap_def Let_def) (auto simp: numeral_2_eq_2)
  next
    case 4
    define n where "n = length xs"
    define e where "e = n - 1"
    define pivot where "pivot = n div 2"
    define xs1 where "xs1 = (if ?lt (xs ! e) (xs ! 0) then qSwap xs e 0 else xs)"
    define xs2 where "xs2 = (if ?lt (xs1 ! pivot) (xs1 ! 0) then qSwap xs1 pivot 0 else xs1)"
    define xs3 where "xs3 = (if ?lt (xs2 ! e) (xs2 ! pivot) then qSwap xs2 e pivot else xs2)"
    define xs4 where "xs4 = qSwap xs3 pivot e"
    define part where "part = partitionLoop ?lt e xs4 0 (e - 1)"
    define xs5 where "xs5 = fst part"
    define low where "low = (if ?lt (xs5 ! snd part) (xs5 ! e) then snd part + 1 else snd part)"
    define xs6 where "xs6 = qSwap xs5 e low"
    from 4 have n4: "4 \<le> n" by (simp add: n_def)
    have c: "\<not> length xs < 2" "length xs \<noteq> 2" "length xs \<noteq> 3" using 4 by simp_all
    have eq: "qSortHelper ?lt xs =
        qSortHelper ?lt (take low xs6) @ [xs6 ! low] @ qSortHelper ?lt (drop (low + 1) xs6)"
      by (subst qSortHelper.simps)
         (simp only: Let_def c if_False xs6_def low_def xs5_def part_def xs4_def xs3_def xs2_def
            xs1_def pivot_def e_def n_def)
    have eq': "qSortHelper ?lt xs =
        qSortHelper ?lt (take low xs6) @ [xs6 ! low] @ qSortHelper ?lt (drop (Suc low) xs6)"
      using eq by simp
    have b: "e < n" "pivot < n" "0 < n" "0 < e" using n4 by (simp_all add: e_def pivot_def)
    have l1: "length xs1 = n" "mset xs1 = mset xs"
      using b by (simp_all add: xs1_def n_def mset_qSwap)
    have l2: "length xs2 = n" "mset xs2 = mset xs"
      using b l1 by (simp_all add: xs2_def mset_qSwap)
    have l3: "length xs3 = n" "mset xs3 = mset xs"
      using b l2 by (simp_all add: xs3_def mset_qSwap)
    have l4: "length xs4 = n" "mset xs4 = mset xs"
      using b l3 by (simp_all add: xs4_def mset_qSwap)
    have "partInv f e (f (xs4 ! e)) (mset xs) xs4 0 (e - 1)"
      using b l4 by (auto simp: partInv_def)
    from partitionLoop_spec [OF this]
    have pp: "partPost f e (f (xs4 ! e)) (mset xs) n part"
      unfolding part_def l4(1) .
    have post: "length xs5 = n" "snd part < e" "f (xs5 ! e) = f (xs4 ! e)" "mset xs5 = mset xs"
      using pp unfolding partPost_def xs5_def by blast+
    have post5: "f (xs5 ! i) \<le> f (xs5 ! e)" if "i < snd part" for i
      using pp that unfolding partPost_def xs5_def by metis
    have post6: "f (xs5 ! e) \<le> f (xs5 ! i)" if "snd part < i" "i < e" for i
      using pp that unfolding partPost_def xs5_def by metis
    have lowe: "low \<le> e" "low < n" using post(2) b by (auto simp: low_def)
    have l6: "length xs6 = n" "mset xs6 = mset xs"
      using b lowe post by (simp_all add: xs6_def mset_qSwap)
    have nth6: "xs6 ! k = (if k = low then xs5 ! e else if k = e then xs5 ! low else xs5 ! k)"
      if "k < n" for k
      unfolding xs6_def using b(1) lowe(2) that post(1) by (simp add: nth_qSwap)
    have piv: "xs6 ! low = xs5 ! e" using lowe by (simp add: nth6)
    have left: "f (xs6 ! i) \<le> f (xs6 ! low)" if "i < low" for i
    proof -
      from that lowe have i: "i < n" "i \<noteq> low" "i \<noteq> e" by auto
      then have "xs6 ! i = xs5 ! i" by (simp add: nth6)
      moreover have "f (xs5 ! i) \<le> f (xs5 ! e)"
      proof (cases "i < snd part")
        case True
        then show ?thesis by (rule post5)
      next
        case False
        with that have "i = snd part" "?lt (xs5 ! snd part) (xs5 ! e)"
          by (auto simp: low_def split: if_splits)
        then show ?thesis by simp
      qed
      ultimately show ?thesis by (simp add: piv)
    qed
    have right: "f (xs6 ! low) \<le> f (xs6 ! i)" if "low < i" "i < n" for i
    proof (cases "i = e")
      case False
      with that b have i: "i < e" "i \<noteq> low" by (auto simp: e_def)
      then have "xs6 ! i = xs5 ! i" using that False by (simp add: nth6)
      moreover have "snd part < i" using that(1) by (auto simp: low_def split: if_splits)
      then have "f (xs5 ! e) \<le> f (xs5 ! i)" using i(1) by (rule post6)
      ultimately show ?thesis by (simp add: piv)
    next
      case True
      with that have "xs6 ! i = xs5 ! low" by (simp add: nth6)
      moreover have "f (xs5 ! e) \<le> f (xs5 ! low)"
      proof (cases "?lt (xs5 ! snd part) (xs5 ! e)")
        case True
        then have lw: "low = snd part + 1" by (simp add: low_def)
        with that \<open>i = e\<close> have "snd part < low" "low < e" by simp_all
        then show ?thesis by (rule post6)
      next
        case False
        then have "low = snd part" by (simp add: low_def)
        with False show ?thesis by simp
      qed
      ultimately show ?thesis by (simp add: piv)
    qed
    have "length (take low xs6) < length xs" using lowe l6 by (simp add: n_def)
    from less [OF this] have A: "mset (qSortHelper ?lt (take low xs6)) = mset (take low xs6)"
      "sorted (map f (qSortHelper ?lt (take low xs6)))" by simp_all
    have "length (drop (Suc low) xs6) < length xs" using lowe l6 by (simp add: n_def)
    from less [OF this] have B: "mset (qSortHelper ?lt (drop (Suc low) xs6)) = mset (drop (Suc low) xs6)"
      "sorted (map f (qSortHelper ?lt (drop (Suc low) xs6)))" by simp_all
    have split: "xs6 = take low xs6 @ xs6 ! low # drop (Suc low) xs6"
      using lowe l6 by (simp add: id_take_nth_drop)
    have "mset (qSortHelper ?lt xs) = mset (take low xs6) + {#xs6 ! low#} + mset (drop (Suc low) xs6)"
      by (simp add: eq' A B)
    also have "\<dots> = mset (take low xs6 @ xs6 ! low # drop (Suc low) xs6)" by simp
    also have "\<dots> = mset xs" using split l6 by simp
    finally have M: "mset (qSortHelper ?lt xs) = mset xs" .
    have sa: "set (qSortHelper ?lt (take low xs6)) = set (take low xs6)"
      using A(1) by (rule mset_eq_setD)
    have sb: "set (qSortHelper ?lt (drop (Suc low) xs6)) = set (drop (Suc low) xs6)"
      using B(1) by (rule mset_eq_setD)
    have la: "\<forall>x \<in> set (qSortHelper ?lt (take low xs6)). f x \<le> f (xs6 ! low)"
      unfolding sa using left lowe l6 by (auto simp: in_set_conv_nth)
    have lb: "\<forall>y \<in> set (qSortHelper ?lt (drop (Suc low) xs6)). f (xs6 ! low) \<le> f y"
      unfolding sb using right lowe l6 by (auto simp: in_set_conv_nth)
    have "sorted (map f (qSortHelper ?lt xs))"
      unfolding eq' using A(2) B(2) la lb by (rule sorted_pivot_parts)
    with M show ?thesis by simp
  qed
qed

lemma qSort_sorts:
  fixes f :: "'a \<Rightarrow> 'k::linorder"
  shows "mset (qSort (\<lambda>a b. f a < f b) xs) = mset xs \<and> sorted (map f (qSort (\<lambda>a b. f a < f b) xs))"
  using qSortHelper_sorts [of f xs] by (simp add: qSort_def)

lemma resultLess_key: "resultLess = (\<lambda>a b. resultKey a < resultKey b)"
  by (simp add: resultLess_def fun_eq_iff)

lemma priv_runQuery_current:
  "m_queryResults (priv_runQuery E rawQuery (m_lastQuery st) st) = computeResults E st rawQuery"
  by (simp add: priv_runQuery_def runQuery_entry_def runQuery_publish_def)

text \<open>
  C6, as amended. The results \<^verbatim>\<open>_runQuery\<close> publishes are the accumulated results,
  each as often as it was found, in an order in which the ranks never fall: no result
  is followed by one that \<^verbatim>\<open>operator<\<close> puts before it. The rank is the name's length,
  then the name without case, then the docset name, then the path, and any two results
  are ordered by it or have the same rank. Nothing is said of the order of results of the
  same rank.
\<close>

theorem results_sorted_by_rank:
  "mset (computeResults E st rawQuery) = mset (searchDocsets E st rawQuery) \<and>
   sorted (map resultKey (computeResults E st rawQuery)) \<and>
   sorted_wrt (\<lambda>a b. \<not> resultLess b a) (computeResults E st rawQuery) \<and>
   (\<forall>a b. resultLess a b \<or> resultLess b a \<or> resultKey a = resultKey b) \<and>
   (\<forall>r. resultKey r = (length (resultName r), toLower (resultName r), docsetName r, resultPath r)) \<and>
   m_queryResults (priv_runQuery E rawQuery (m_lastQuery st) st) = computeResults E st rawQuery"
proof -
  have s: "mset (computeResults E st rawQuery) = mset (searchDocsets E st rawQuery)"
    "sorted (map resultKey (computeResults E st rawQuery))"
    using qSort_sorts [of resultKey "searchDocsets E st rawQuery"]
    by (simp_all add: computeResults_def resultLess_key)
  from s(2) have w: "sorted_wrt (\<lambda>a b. \<not> resultLess b a) (computeResults E st rawQuery)"
    by (simp add: sorted_map resultLess_def not_less)
  have t: "\<forall>a b. resultLess a b \<or> resultLess b a \<or> resultKey a = resultKey b"
    by (auto simp: resultLess_def)
  from s w t priv_runQuery_current show ?thesis by (simp add: resultKey_def)
qed

text \<open>C6, as amended, on the example registry and the term \<open>list\<close>.\<close>

theorem results_sorted_by_rank_witness:
  "sorted (map resultKey
     [\<lparr>resultName = ''List'', parentName = None, resultPath = ''list.html'',
       docsetName = ''Java'', originalQuery = Some ''list''\<rparr>,
      \<lparr>resultName = ''ArrayList'', parentName = None, resultPath = ''arraylist.html'',
       docsetName = ''Java'', originalQuery = Some ''list''\<rparr>,
      \<lparr>resultName = ''ListUtils'', parentName = Some ''util'', resultPath = ''listutils.html'',
       docsetName = ''Java'', originalQuery = Some ''list''\<rparr>,
      \<lparr>resultName = ''ListIterator'', parentName = None, resultPath = ''listiterator.html'',
       docsetName = ''Java'', originalQuery = Some ''list''\<rparr>]) \<and>
   m_queryResults (priv_runQuery exampleEnv ''list'' (m_lastQuery exampleRegistry) exampleRegistry) =
     [\<lparr>resultName = ''List'', parentName = None, resultPath = ''list.html'',
       docsetName = ''Java'', originalQuery = Some ''list''\<rparr>,
      \<lparr>resultName = ''ArrayList'', parentName = None, resultPath = ''arraylist.html'',
       docsetName = ''Java'', originalQuery = Some ''list''\<rparr>,
      \<lparr>resultName = ''ListUtils'', parentName = Some ''util'', resultPath = ''listutils.html'',
       docsetName = ''Java'', originalQuery = Some ''list''\<rparr>,
      \<lparr>resultName = ''ListIterator'', parentName = None, resultPath = ''listiterator.html'',
       docsetName = ''Java'', originalQuery = Some ''list''\<rparr>]"
  using results_sorted_by_rank [of exampleEnv exampleRegistry "''list''"]
  unfolding eval_results by blast

text \<open>
  C6 as stated fails on a store with \<open>a.cz\<close> and \<open>b.cz\<close> on one page and \<open>bc\<close> on another,
  for the term \<open>c\<close>: the two results named \<open>cz\<close> have the same rank and are found in the
  order of their parents \<open>a\<close>, \<open>b\<close>; the first step of \<^verbatim>\<open>qSort\<close> on three elements
  exchanges the first with the last, and they are published in the order \<open>b\<close>, \<open>a\<close>.
\<close>

theorem sort_not_stable_counterexample:
  "searchDocsets unstableEnv exampleRegistry ''c'' =
     [\<lparr>resultName = ''cz'', parentName = Some ''a'', resultPath = ''p.html'',
       docsetName = ''Java'', originalQuery = Some ''c''\<rparr>,
      \<lparr>resultName = ''cz'', parentName = Some ''b'', resultPath = ''p.html'',
       docsetName = ''Java'', originalQuery = Some ''c''\<rparr>,
      \<lparr>resultName = ''bc'', parentName = None, resultPath = ''q.html'',
       docsetName = ''Java'', originalQuery = Some ''c''\<rparr>] \<and>
   resultKey \<lparr>resultName = ''cz'', parentName = Some ''a'', resultPath = ''p.html'',
       docsetName = ''Java'', originalQuery = Some ''c''\<rparr> =
   resultKey \<lparr>resultName = ''cz'', parentName = Some ''b'', resultPath = ''p.html'',
       docsetName = ''Java'', originalQuery = Some ''c''\<rparr> \<and>
   computeResults unstableEnv exampleRegistry ''c'' =
     [\<lparr>resultName = ''bc'', parentName = None, resultPath = ''q.html'',
       docsetName = ''Java'', originalQuery = Some ''c''\<rparr>,
      \<lparr>resultName = ''cz'', parentName = Some ''b'', resultPath = ''p.html'',
       docsetName = ''Java'', originalQuery = Some ''c''\<rparr>,
      \<lparr>resultName = ''cz'', parentName = Some ''a'', resultPath = ''p.html'',
       docsetName = ''Java'', originalQuery = Some ''c''\<rparr>]"
  by code_simp

end
